theory Spec2Isabelle
  imports Main
begin

section \<open>Data model (lib/db: interfaces Step and Goal)\<close>

text \<open>
  A step owns its children, so the type is recursive through lists. Optional fields
  (\<^verbatim>\<open>description?\<close>, \<^verbatim>\<open>parentId?\<close>) are options, \<^verbatim>\<open>undefined\<close> being \<open>None\<close>.
  \<^verbatim>\<open>order\<close>, \<^verbatim>\<open>createdAt\<close> and \<^verbatim>\<open>updatedAt\<close> are JavaScript numbers that only ever hold
  integers here; they are modelled as \<open>int\<close>.

  JavaScript numbers are IEEE doubles. The code only compares orders, takes their
  maximum and adds 1 to it. On integers of absolute value below \<open>2 ^ 53\<close> all of this is
  exact, and there the integer arithmetic below is the arithmetic of the code. From
  \<open>2 ^ 53\<close> on, \<^verbatim>\<open>+ 1\<close> rounds in the code (\<^verbatim>\<open>2 ** 53 + 1\<close> is \<^verbatim>\<open>2 ** 53\<close>) and does not
  round here: the definitions that add 1 to an order (\<open>duplicateStep\<close>,
  \<open>duplicatedStep_order\<close>, \<open>addStepToNewParent\<close>, \<open>moveStepToParent\<close>, \<open>ctx_addStep\<close>) follow
  the code for orders below \<open>2 ^ 53\<close>, and a statement that gives the value of such a
  sum for orders of any size assumes them below \<open>2 ^ 53\<close>.
\<close>

datatype step = Step (sid: string) (title: string) (description: "string option")
  (completed: bool) (parentId: "string option") (children: "step list") (order: int)

record goal =
  goal_id :: string
  goal_title :: string
  goal_description :: "string option"
  createdAt :: int
  updatedAt :: int
  steps :: "step list"
  goal_order :: int

text \<open>Object spread with one overridden field: \<^verbatim>\<open>{ ...s, children: ch }\<close> and the like.\<close>

fun with_children :: "step list \<Rightarrow> step \<Rightarrow> step" where
  "with_children ch (Step i t d c p _ ord) = Step i t d c p ch ord"

fun with_completed :: "bool \<Rightarrow> step \<Rightarrow> step" where
  "with_completed c (Step i t d _ p ch ord) = Step i t d c p ch ord"

fun with_order :: "int \<Rightarrow> step \<Rightarrow> step" where
  "with_order ord (Step i t d c p ch _) = Step i t d c p ch ord"

fun with_parentId :: "string option \<Rightarrow> step \<Rightarrow> step" where
  "with_parentId p (Step i t d c _ ch ord) = Step i t d c p ch ord"

fun with_title :: "string \<Rightarrow> step \<Rightarrow> step" where
  "with_title t (Step i _ d c p ch ord) = Step i t d c p ch ord"

fun with_description :: "string option \<Rightarrow> step \<Rightarrow> step" where
  "with_description d (Step i t _ c p ch ord) = Step i t d c p ch ord"

text \<open>
  JavaScript truthiness of an optional string, as tested by \<^verbatim>\<open>if (!parentStepId)\<close>:
  \<^verbatim>\<open>undefined\<close> and the empty string are falsy.
\<close>

definition truthy :: "string option \<Rightarrow> bool" where
  "truthy p = (case p of None \<Rightarrow> False | Some s \<Rightarrow> s \<noteq> [])"

text \<open>\<^verbatim>\<open>Math.max(0, ...xs)\<close>.\<close>

definition Math_max0 :: "int list \<Rightarrow> int" where
  "Math_max0 xs = foldr max xs 0"

text \<open>\<^verbatim>\<open>xs.findIndex(P)\<close>; \<open>None\<close> is the result \<^verbatim>\<open>-1\<close>.\<close>

fun findIndex :: "('a \<Rightarrow> bool) \<Rightarrow> 'a list \<Rightarrow> nat option" where
  "findIndex P [] = None"
| "findIndex P (x # xs) = (if P x then Some 0 else map_option Suc (findIndex P xs))"

text \<open>
  \<^verbatim>\<open>Array.prototype.splice\<close>: a negative start counts from the end, and the start is
  clamped to \<open>[0, length]\<close>.
\<close>

definition splice_start :: "int \<Rightarrow> nat \<Rightarrow> nat" where
  "splice_start start len =
     (if start < 0 then nat (max (int len + start) 0) else min (nat start) len)"

text \<open>What is left of \<open>xs\<close> after \<^verbatim>\<open>xs.splice(k, 1)\<close>, for a clamped start \<open>k\<close>.\<close>

definition splice_remove1 :: "nat \<Rightarrow> 'a list \<Rightarrow> 'a list" where
  "splice_remove1 k xs = take k xs @ drop (Suc k) xs"

text \<open>\<open>xs\<close> after \<^verbatim>\<open>xs.splice(start, 0, x)\<close>.\<close>

definition splice_insert :: "int \<Rightarrow> 'a \<Rightarrow> 'a list \<Rightarrow> 'a list" where
  "splice_insert start x xs =
     (let k = splice_start start (length xs) in take k xs @ [x] @ drop k xs)"

section \<open>stepHelpers\<close>

subsection \<open>findStep\<close>

fun findStepRecursive :: "step list \<Rightarrow> string \<Rightarrow> step option" where
  "findStepRecursive [] i = None"
| "findStepRecursive (Step si t d c p ch ord # rest) i =
     (if si = i then Some (Step si t d c p ch ord)
      else case (if ch \<noteq> [] then findStepRecursive ch i else None) of
             Some foundStep \<Rightarrow> Some foundStep
           | None \<Rightarrow> findStepRecursive rest i)"

definition findStep :: "goal \<Rightarrow> string \<Rightarrow> step option" where
  "findStep goal stepId = findStepRecursive (steps goal) stepId"

subsection \<open>addStep\<close>

text \<open>\<^verbatim>\<open>Date.now()\<close> is the parameter \<open>now\<close> of every operation.\<close>

fun addStepRecursive :: "string \<Rightarrow> step \<Rightarrow> step list \<Rightarrow> step list" where
  "addStepRecursive parentStepId step stps =
     map (\<lambda>s. case s of Step i t d c p ch ord \<Rightarrow>
            if i = parentStepId then Step i t d c p (ch @ [step]) ord
            else if ch \<noteq> [] then Step i t d c p (addStepRecursive parentStepId step ch) ord
            else s) stps"

definition addStep :: "int \<Rightarrow> goal \<Rightarrow> step \<Rightarrow> string option \<Rightarrow> goal" where
  "addStep now goal step parentStepId =
     (let updatedGoal = goal\<lparr>updatedAt := now\<rparr> in
      case parentStepId of
        None \<Rightarrow> updatedGoal\<lparr>steps := steps updatedGoal @ [step]\<rparr>
      | Some pid \<Rightarrow>
          if pid = [] then updatedGoal\<lparr>steps := steps updatedGoal @ [step]\<rparr>
          else updatedGoal\<lparr>steps := addStepRecursive pid step (steps updatedGoal)\<rparr>)"

subsection \<open>updateStep\<close>

fun updateStepRecursive :: "step \<Rightarrow> step list \<Rightarrow> step list" where
  "updateStepRecursive updatedStep stps =
     map (\<lambda>s. case s of Step i t d c p ch ord \<Rightarrow>
            if i = sid updatedStep then with_children ch updatedStep
            else if ch \<noteq> [] then Step i t d c p (updateStepRecursive updatedStep ch) ord
            else s) stps"

definition updateStep :: "int \<Rightarrow> goal \<Rightarrow> step \<Rightarrow> goal" where
  "updateStep now goal updatedStep =
     (let updatedGoal = goal\<lparr>updatedAt := now\<rparr> in
      updatedGoal\<lparr>steps := updateStepRecursive updatedStep (steps updatedGoal)\<rparr>)"

subsection \<open>deleteStep\<close>

fun deleteStepRecursive :: "string \<Rightarrow> step list \<Rightarrow> step list" where
  "deleteStepRecursive stepId stps =
     map (\<lambda>s. case s of Step i t d c p ch ord \<Rightarrow>
            Step i t d c p (deleteStepRecursive stepId ch) ord)
       (filter (\<lambda>s. sid s \<noteq> stepId) stps)"

definition deleteStep :: "int \<Rightarrow> goal \<Rightarrow> string \<Rightarrow> goal" where
  "deleteStep now goal stepId =
     (let updatedGoal = goal\<lparr>updatedAt := now\<rparr> in
      updatedGoal\<lparr>steps := deleteStepRecursive stepId (steps updatedGoal)\<rparr>)"

subsection \<open>toggleStepCompletion\<close>

fun toggleCompletionRecursiveForce :: "step list \<Rightarrow> bool \<Rightarrow> step list" where
  "toggleCompletionRecursiveForce stps status =
     map (\<lambda>s. case s of Step i t d c p ch ord \<Rightarrow>
            Step i t d status p (toggleCompletionRecursiveForce ch status) ord) stps"

fun toggleCompletionRecursive :: "string \<Rightarrow> step list \<Rightarrow> step list" where
  "toggleCompletionRecursive stepId stps =
     map (\<lambda>s. case s of Step i t d c p ch ord \<Rightarrow>
            if i = stepId then
              (let newStatus = \<not> c in
               Step i t d newStatus p
                 (map (\<lambda>child. with_children
                         (toggleCompletionRecursiveForce (children child) newStatus)
                         (with_completed newStatus child)) ch) ord)
            else if ch \<noteq> [] then Step i t d c p (toggleCompletionRecursive stepId ch) ord
            else s) stps"

definition toggleStepCompletion :: "int \<Rightarrow> goal \<Rightarrow> string \<Rightarrow> goal" where
  "toggleStepCompletion now goal stepId =
     (let updatedGoal = goal\<lparr>updatedAt := now\<rparr> in
      updatedGoal\<lparr>steps := toggleCompletionRecursive stepId (steps updatedGoal)\<rparr>)"

subsection \<open>duplicateStep\<close>

text \<open>
  \<^verbatim>\<open>generateId()\<close> is an injected supply: \<open>gen k\<close> is the identifier returned by the
  \<open>k\<close>-th call, and the number of calls made so far is threaded through the copy. The
  object literal evaluates \<^verbatim>\<open>id: generateId()\<close> before \<^verbatim>\<open>children: ...map(...)\<close>, so
  the identifiers are handed out in pre-order.
\<close>

fun duplicateStepRecursive :: "(nat \<Rightarrow> string) \<Rightarrow> step \<Rightarrow> nat \<Rightarrow> step \<times> nat"
  and duplicateStepRecursive_map :: "(nat \<Rightarrow> string) \<Rightarrow> step list \<Rightarrow> nat \<Rightarrow> step list \<times> nat"
where
  "duplicateStepRecursive gen (Step i t d c p ch ord) n =
     (case duplicateStepRecursive_map gen ch (Suc n) of
        (ch', n') \<Rightarrow> (Step (gen n) (t @ '' (Copy)'') d c p ch' ord, n'))"
| "duplicateStepRecursive_map gen [] n = ([], n)"
| "duplicateStepRecursive_map gen (s # ss) n =
     (case duplicateStepRecursive gen s n of
        (s', n1) \<Rightarrow> (case duplicateStepRecursive_map gen ss n1 of
                      (ss', n2) \<Rightarrow> (s' # ss', n2)))"

definition findMaxOrder :: "step list \<Rightarrow> string option \<Rightarrow> int" where
  "findMaxOrder stps pid =
     Math_max0 (map order (filter (\<lambda>s. parentId s = pid) stps))"

text \<open>
  \<^verbatim>\<open>addDuplicatedStepToParent\<close> writes \<^verbatim>\<open>duplicatedStep.order\<close> each time it meets a step
  whose id is the parent's, and puts the same object into that step's children. The
  object is shared, so every inserted reference ends with the order written last.
  \<open>duplicatedStep_order\<close> follows the traversal and returns the order last written
  (the second argument is the order so far); \<open>addDuplicatedStepToParent\<close> then inserts
  the step carrying that final order.
\<close>

fun duplicatedStep_order :: "string \<Rightarrow> int \<Rightarrow> step list \<Rightarrow> int" where
  "duplicatedStep_order pid cur [] = cur"
| "duplicatedStep_order pid cur (Step i t d c p ch ord # rest) =
     (if i = pid then duplicatedStep_order pid (findMaxOrder ch (Some i) + 1) rest
      else if ch \<noteq> [] then duplicatedStep_order pid (duplicatedStep_order pid cur ch) rest
      else duplicatedStep_order pid cur rest)"

fun addDuplicatedStepToParent :: "string \<Rightarrow> step \<Rightarrow> step list \<Rightarrow> step list" where
  "addDuplicatedStepToParent pid duplicatedStep stps =
     map (\<lambda>s. case s of Step i t d c p ch ord \<Rightarrow>
            if i = pid then Step i t d c p (ch @ [duplicatedStep]) ord
            else if ch \<noteq> [] then Step i t d c p (addDuplicatedStepToParent pid duplicatedStep ch) ord
            else s) stps"

definition duplicateStep :: "int \<Rightarrow> (nat \<Rightarrow> string) \<Rightarrow> nat \<Rightarrow> goal \<Rightarrow> string \<Rightarrow> goal" where
  "duplicateStep now gen n goal stepId =
     (let updatedGoal = goal\<lparr>updatedAt := now\<rparr> in
      case findStep goal stepId of
        None \<Rightarrow> goal
      | Some stepToDuplicate \<Rightarrow>
          (let duplicatedStep = fst (duplicateStepRecursive gen stepToDuplicate n) in
           if \<not> truthy (parentId stepToDuplicate) then
             updatedGoal\<lparr>steps := steps updatedGoal @
               [with_order (findMaxOrder (steps updatedGoal) None + 1) duplicatedStep]\<rparr>
           else
             (let pid = the (parentId stepToDuplicate) in
              updatedGoal\<lparr>steps := addDuplicatedStepToParent pid
                (with_order (duplicatedStep_order pid (order duplicatedStep) (steps updatedGoal))
                   duplicatedStep)
                (steps updatedGoal)\<rparr>)))"

subsection \<open>reorderStep\<close>

text \<open>
  The local helper \<^verbatim>\<open>getSiblingsSteps\<close> of \<^verbatim>\<open>reorderStep\<close> is never called and has no
  counterpart here.

  \<^verbatim>\<open>xs.map((step, index) => ({ ...step, order: index }))\<close>:
\<close>

definition renumber :: "step list \<Rightarrow> step list" where
  "renumber stps = map (\<lambda>(index, step). with_order (int index) step) (enumerate 0 stps)"

text \<open>
  The two splices of a reorder: take the element at \<open>sourceIndex\<close> out, put it back at
  \<open>newIndex\<close>.
\<close>

definition move_within :: "nat \<Rightarrow> int \<Rightarrow> 'a list \<Rightarrow> 'a list" where
  "move_within sourceIndex newIndex xs =
     splice_insert newIndex (xs ! sourceIndex) (splice_remove1 sourceIndex xs)"

fun reorderStepsAtSameLevel :: "step list \<Rightarrow> string \<Rightarrow> int \<Rightarrow> string option \<Rightarrow> step list" where
  "reorderStepsAtSameLevel stps sourceId newIndex pid =
     (if \<not> truthy pid then
        (case findIndex (\<lambda>s. sid s = sourceId) stps of
           None \<Rightarrow> stps
         | Some sourceIndex \<Rightarrow> renumber (move_within sourceIndex newIndex stps))
      else
        map (\<lambda>s. case s of Step i t d c p ch ord \<Rightarrow>
               if Some i = pid then
                 (case findIndex (\<lambda>s. sid s = sourceId) ch of
                    None \<Rightarrow> s
                  | Some sourceIndex \<Rightarrow>
                      Step i t d c p (renumber (move_within sourceIndex newIndex ch)) ord)
               else if ch \<noteq> [] then
                 Step i t d c p (reorderStepsAtSameLevel ch sourceId newIndex pid) ord
               else s) stps)"

definition reorderStep :: "int \<Rightarrow> goal \<Rightarrow> string \<Rightarrow> int \<Rightarrow> string option \<Rightarrow> goal" where
  "reorderStep now goal stepId newIndex pid =
     (let updatedGoal = goal\<lparr>updatedAt := now\<rparr> in
      updatedGoal\<lparr>steps := reorderStepsAtSameLevel (steps updatedGoal) stepId newIndex pid\<rparr>)"

subsection \<open>moveStepToParent\<close>

text \<open>
  \<^verbatim>\<open>isDescendant\<close> looks each child up again by id with \<^verbatim>\<open>findStep\<close> and recurses on what
  it finds, so on a tree with a repeated id it can recurse without end. The first
  argument bounds the recursion depth; \<open>None\<close> is the call that does not return.
\<close>

fun isDescendant :: "nat \<Rightarrow> goal \<Rightarrow> string \<Rightarrow> string \<Rightarrow> bool option"
  and isDescendant_children :: "nat \<Rightarrow> goal \<Rightarrow> step list \<Rightarrow> string \<Rightarrow> bool option"
where
  "isDescendant 0 goal pid potentialChildId = None"
| "isDescendant (Suc fuel) goal pid potentialChildId =
     (case findStep goal pid of
        None \<Rightarrow> Some False
      | Some parent \<Rightarrow> isDescendant_children fuel goal (children parent) potentialChildId)"
| "isDescendant_children fuel goal [] potentialChildId = Some False"
| "isDescendant_children fuel goal (child # rest) potentialChildId =
     (if sid child = potentialChildId then Some True
      else case isDescendant fuel goal (sid child) potentialChildId of
             None \<Rightarrow> None
           | Some True \<Rightarrow> Some True
           | Some False \<Rightarrow> isDescendant_children fuel goal rest potentialChildId)"

fun removeStepFromParent :: "step list \<Rightarrow> string \<Rightarrow> step list" where
  "removeStepFromParent stps stepId =
     (if \<exists>s\<in>set stps. sid s = stepId then filter (\<lambda>s. sid s \<noteq> stepId) stps
      else
        map (\<lambda>s. case s of Step i t d c p ch ord \<Rightarrow>
               Step i t d c p
                 (if \<exists>c\<in>set ch. sid c = stepId then filter (\<lambda>c. sid c \<noteq> stepId) ch
                  else removeStepFromParent ch stepId) ord) stps)"

definition getMaxOrder :: "goal \<Rightarrow> step list \<Rightarrow> string option \<Rightarrow> int" where
  "getMaxOrder goal stps pid =
     (if \<not> truthy pid then Math_max0 (map order stps)
      else case findStep goal (the pid) of
             Some parent \<Rightarrow> Math_max0 (map order (children parent))
           | None \<Rightarrow> 0)"

text \<open>
  Every write of \<^verbatim>\<open>movedStep.order\<close> in \<^verbatim>\<open>addStepToNewParent\<close> stores the same value,
  \<^verbatim>\<open>getMaxOrder([], newParentId) + 1\<close> computed on the goal as it was given, so the
  shared object is inserted with that order.
\<close>

fun addStepToNewParent :: "goal \<Rightarrow> string \<Rightarrow> step \<Rightarrow> step list \<Rightarrow> step list" where
  "addStepToNewParent goal newParentId movedStep stps =
     map (\<lambda>s. case s of Step i t d c p ch ord \<Rightarrow>
            if i = newParentId then
              Step i t d c p (ch @ [with_order (getMaxOrder goal [] (Some i) + 1) movedStep]) ord
            else if ch \<noteq> [] then
              Step i t d c p (addStepToNewParent goal newParentId movedStep ch) ord
            else s) stps"

definition moveStepToParent ::
  "nat \<Rightarrow> int \<Rightarrow> goal \<Rightarrow> string \<Rightarrow> string option \<Rightarrow> goal option" where
  "moveStepToParent fuel now goal stepId newParentId =
     (let updatedGoal = goal\<lparr>updatedAt := now\<rparr> in
      case findStep goal stepId of
        None \<Rightarrow> Some goal
      | Some stepToMove \<Rightarrow>
          (case (if truthy newParentId
                 then isDescendant fuel goal stepId (the newParentId)
                 else Some False) of
             None \<Rightarrow> None
           | Some True \<Rightarrow> Some goal
           | Some False \<Rightarrow>
               (let intermediateSteps = removeStepFromParent (steps updatedGoal) stepId;
                    movedStep = with_parentId newParentId stepToMove
                in if \<not> truthy newParentId then
                     Some (updatedGoal\<lparr>steps := intermediateSteps @
                       [with_order (getMaxOrder goal intermediateSteps None + 1) movedStep]\<rparr>)
                   else
                     Some (updatedGoal\<lparr>steps :=
                       addStepToNewParent goal (the newParentId) movedStep intermediateSteps\<rparr>))))"

subsection \<open>reorderGoals\<close>

text \<open>
  When \<^verbatim>\<open>sourceIndex\<close> is past the end, the first splice removes nothing, \<^verbatim>\<open>movedGoal\<close> is
  \<^verbatim>\<open>undefined\<close> and the result holds an object that has only an \<^verbatim>\<open>order\<close>: not a list of
  goals, \<open>None\<close> here.
\<close>

definition reorderGoals :: "goal list \<Rightarrow> int \<Rightarrow> int \<Rightarrow> goal list option" where
  "reorderGoals goals sourceIndex destinationIndex =
     (let k = splice_start sourceIndex (length goals) in
      if k < length goals then
        Some (map (\<lambda>(index, goal). goal\<lparr>goal_order := int index\<rparr>)
                (enumerate 0 (move_within k destinationIndex goals)))
      else None)"

section \<open>GoalContext: the operations as the interface calls them\<close>

datatype error = GoalNotFound | StepNotFound

text \<open>
  \<^verbatim>\<open>addStep\<close> of the context computes the order of the new step (the largest order of
  the target sibling list plus one, \<open>0\<close> when the list is empty or the parent is
  missing), builds the step and hands it to \<^verbatim>\<open>stepHelpers.addStep\<close>. Its local
  \<^verbatim>\<open>findParent\<close> is \<^verbatim>\<open>findStepRecursive\<close> again. \<open>newId\<close> is what \<^verbatim>\<open>generateId()\<close> returns.
\<close>

definition ctx_addStep ::
  "int \<Rightarrow> string \<Rightarrow> goal \<Rightarrow> string \<Rightarrow> string option \<Rightarrow> string option \<Rightarrow> goal" where
  "ctx_addStep now newId goalToUpdate ttl descr parentStepId =
     (let maxOrder =
        (if \<not> truthy parentStepId then
           (if steps goalToUpdate \<noteq> [] then Max (set (map order (steps goalToUpdate))) else - 1)
         else
           (case findStepRecursive (steps goalToUpdate) (the parentStepId) of
              Some parent \<Rightarrow>
                if children parent \<noteq> [] then Max (set (map order (children parent))) else - 1
            | None \<Rightarrow> - 1));
          newStep = Step newId ttl descr False parentStepId [] (maxOrder + 1)
      in addStep now goalToUpdate newStep parentStepId)"

text \<open>
  \<^verbatim>\<open>updateStep\<close> of the context throws \<^verbatim>\<open>Step not found\<close> before anything is built or
  stored when the step is missing.
\<close>

definition ctx_updateStep ::
  "int \<Rightarrow> goal \<Rightarrow> string \<Rightarrow> string \<Rightarrow> string option \<Rightarrow> error + goal" where
  "ctx_updateStep now goalToUpdate stepId ttl descr =
     (case findStep goalToUpdate stepId of
        None \<Rightarrow> Inl StepNotFound
      | Some existingStep \<Rightarrow>
          Inr (updateStep now goalToUpdate (with_description descr (with_title ttl existingStep))))"

section \<open>Vocabulary of the specification\<close>

text \<open>
  All the steps of a forest in pre-order (a step, then its subtree, then its later
  siblings), and their identifiers. I1, uniqueness of identifiers within a goal, is
  \<open>distinct (ids (steps g))\<close>. For a step \<open>X\<close>, \<open>ids [X]\<close> are the identifiers of \<open>X\<close> and of
  all its descendants, \<open>ids (children X)\<close> those of its descendants.
\<close>

fun steps_of :: "step list \<Rightarrow> step list" where
  "steps_of [] = []"
| "steps_of (Step i t d c p ch ord # rest) = Step i t d c p ch ord # steps_of ch @ steps_of rest"

definition ids :: "step list \<Rightarrow> string list" where
  "ids stps = map sid (steps_of stps)"

text \<open>
  A node is a step without its children. The nodes of a forest in pre-order together
  with the number of children of each determine the forest, so that an operation is
  described by what it does to the two lists.
\<close>

record node =
  node_id :: string
  node_title :: string
  node_description :: "string option"
  node_completed :: bool
  node_parentId :: "string option"
  node_order :: int

definition node_of :: "step \<Rightarrow> node" where
  "node_of s = \<lparr>node_id = sid s, node_title = title s, node_description = description s,
     node_completed = completed s, node_parentId = parentId s, node_order = order s\<rparr>"

definition nodes :: "step list \<Rightarrow> node list" where
  "nodes stps = map node_of (steps_of stps)"

definition child_counts :: "step list \<Rightarrow> nat list" where
  "child_counts stps = map (\<lambda>s. length (children s)) (steps_of stps)"

text \<open>
  I2, order density: the orders of a sibling list of length \<open>N\<close> are \<open>0, \<dots>, N - 1\<close>, each
  once, in any arrangement; a goal is dense when its root list and the children of every
  step are.
\<close>

definition orders_dense :: "step list \<Rightarrow> bool" where
  "orders_dense stps =
     (distinct (map order stps) \<and> set (map order stps) = set (map int [0..<length stps]))"

definition children_dense :: "step list \<Rightarrow> bool" where
  "children_dense stps = list_all (\<lambda>s. orders_dense (children s)) (steps_of stps)"

definition order_dense :: "goal \<Rightarrow> bool" where
  "order_dense g = (orders_dense (steps g) \<and> children_dense (steps g))"

text \<open>
  I3, parent consistency: every root step has no \<^verbatim>\<open>parentId\<close>, and every other step has
  the id of the step whose \<^verbatim>\<open>children\<close> hold it.
\<close>

fun parents_ok :: "string option \<Rightarrow> step list \<Rightarrow> bool" where
  "parents_ok par [] = True"
| "parents_ok par (Step i t d c p ch ord # rest) =
     (p = par \<and> parents_ok (Some i) ch \<and> parents_ok par rest)"

definition parent_consistent :: "goal \<Rightarrow> bool" where
  "parent_consistent g = parents_ok None (steps g)"

text \<open>
  The nodes \<open>vs\<close> as a copy made by \<^verbatim>\<open>duplicateStepRecursive\<close> has them: the identifiers
  \<open>gen n\<close>, \<open>gen (n + 1)\<close>, \<dots> in sequence, \<^verbatim>\<open>" (Copy)"\<close> appended to every title, all other
  fields kept.
\<close>

definition copied_nodes :: "(nat \<Rightarrow> string) \<Rightarrow> nat \<Rightarrow> node list \<Rightarrow> node list" where
  "copied_nodes gen n vs =
     map (\<lambda>(k, v). v\<lparr>node_id := gen k, node_title := node_title v @ '' (Copy)''\<rparr>)
       (zip [n..<n + length vs] vs)"

text \<open>The titles of the descendants of the step with identifier \<open>x\<close>, in pre-order.\<close>

definition descendant_titles :: "goal \<Rightarrow> string \<Rightarrow> string list option" where
  "descendant_titles g x = map_option (\<lambda>s. map title (steps_of (children s))) (findStep g x)"

subsection \<open>Examples\<close>

text \<open>
  A goal with the root steps \<open>a\<close> and \<open>b\<close>; \<open>a\<close> has the children \<open>x\<close> and \<open>y\<close>, and \<open>x\<close> has
  the completed child \<open>z\<close>. Identifiers are unique, \<^verbatim>\<open>parentId\<close>s consistent, orders dense.
\<close>

definition ex_goal :: goal where
  "ex_goal = \<lparr>goal_id = ''g1'', goal_title = ''Ship it'', goal_description = None,
     createdAt = 0, updatedAt = 0,
     steps =
       [Step ''a'' ''A'' None False None
          [Step ''x'' ''X'' (Some ''first'') False (Some ''a'')
             [Step ''z'' ''Z'' None True (Some ''x'') [] 0] 0,
           Step ''y'' ''Y'' None False (Some ''a'') [] 1] 0,
        Step ''b'' ''B'' None False None [] 1],
     goal_order = 0\<rparr>"

text \<open>Three goals in their order.\<close>

definition ex_goals :: "goal list" where
  "ex_goals =
     [\<lparr>goal_id = ''g1'', goal_title = ''One'', goal_description = None, createdAt = 1,
        updatedAt = 1, steps = [], goal_order = 0\<rparr>,
      \<lparr>goal_id = ''g2'', goal_title = ''Two'', goal_description = None, createdAt = 2,
        updatedAt = 2, steps = [], goal_order = 1\<rparr>,
      \<lparr>goal_id = ''g3'', goal_title = ''Three'', goal_description = None, createdAt = 3,
        updatedAt = 3, steps = [], goal_order = 2\<rparr>]"


text \<open>An identifier supply: \<open>n\<close>, \<open>n*\<close>, \<open>n**\<close>, \<dots>\<close>

definition ex_gen :: "nat \<Rightarrow> string" where
  "ex_gen k = CHR ''n'' # replicate k CHR ''*''"

section \<open>Equations for the recursive helpers\<close>

text \<open>
  The helpers that map over a list of steps are unfolded one list cell at a time, and
  proofs about them go by induction over the forest: a step's children, then its later
  siblings.
\<close>

declare addStepRecursive.simps [simp del] updateStepRecursive.simps [simp del]
  deleteStepRecursive.simps [simp del] toggleCompletionRecursiveForce.simps [simp del]
  toggleCompletionRecursive.simps [simp del] addDuplicatedStepToParent.simps [simp del]
  reorderStepsAtSameLevel.simps [simp del] removeStepFromParent.simps [simp del]
  addStepToNewParent.simps [simp del]

lemma steps_of_Cons: "steps_of (s # ss) = s # steps_of (children s) @ steps_of ss"
  by (cases s) simp

lemma forest_induct [case_names Nil Cons]:
  assumes "P []" and "\<And>s ss. P (children s) \<Longrightarrow> P ss \<Longrightarrow> P (s # ss)"
  shows "P stps"
proof (induction stps rule: steps_of.induct)
  case 1
  show ?case by (rule assms(1))
next
  case (2 i t d c p ch ord rest)
  have "P (children (Step i t d c p ch ord))" using 2(1) by simp
  then show ?case using 2(2) by (rule assms(2))
qed

lemma with_children_same [simp]: "with_children (children s) s = s"
  by (cases s) simp

lemma with_sel [simp]:
  "sid (with_children ch s) = sid s" "children (with_children ch s) = ch"
  "title (with_children ch s) = title s" "description (with_children ch s) = description s"
  "completed (with_children ch s) = completed s" "parentId (with_children ch s) = parentId s"
  "order (with_children ch s) = order s"
  "sid (with_order k s) = sid s" "children (with_order k s) = children s"
  "title (with_order k s) = title s" "description (with_order k s) = description s"
  "completed (with_order k s) = completed s" "parentId (with_order k s) = parentId s"
  "order (with_order k s) = k"
  "sid (with_completed b s) = sid s" "children (with_completed b s) = children s"
  "title (with_completed b s) = title s" "description (with_completed b s) = description s"
  "completed (with_completed b s) = b" "parentId (with_completed b s) = parentId s"
  "order (with_completed b s) = order s"
  "sid (with_parentId q s) = sid s" "children (with_parentId q s) = children s"
  "title (with_parentId q s) = title s" "description (with_parentId q s) = description s"
  "completed (with_parentId q s) = completed s" "parentId (with_parentId q s) = q"
  "order (with_parentId q s) = order s"
  "sid (with_title x s) = sid s" "children (with_title x s) = children s"
  "title (with_title x s) = x" "description (with_title x s) = description s"
  "completed (with_title x s) = completed s" "parentId (with_title x s) = parentId s"
  "order (with_title x s) = order s"
  "sid (with_description y s) = sid s" "children (with_description y s) = children s"
  "title (with_description y s) = title s" "description (with_description y s) = y"
  "completed (with_description y s) = completed s" "parentId (with_description y s) = parentId s"
  "order (with_description y s) = order s"
  by (cases s; simp)+


lemma findStepRecursive_Cons:
  "findStepRecursive (s # ss) x =
     (if sid s = x then Some s
      else case findStepRecursive (children s) x of
             Some f \<Rightarrow> Some f | None \<Rightarrow> findStepRecursive ss x)"
  by (cases s) simp

lemma addStepRecursive_Nil: "addStepRecursive pid st [] = []"
  by (subst addStepRecursive.simps) simp

lemma addStepRecursive_Cons:
  "addStepRecursive pid st (s # ss) =
     (if sid s = pid then with_children (children s @ [st]) s
      else with_children (addStepRecursive pid st (children s)) s) # addStepRecursive pid st ss"
  unfolding addStepRecursive.simps [of pid st ss]
  by (subst addStepRecursive.simps, cases s) (simp add: addStepRecursive_Nil)

lemma updateStepRecursive_Nil: "updateStepRecursive u [] = []"
  by (subst updateStepRecursive.simps) simp

lemma updateStepRecursive_Cons:
  "updateStepRecursive u (s # ss) =
     (if sid s = sid u then with_children (children s) u
      else with_children (updateStepRecursive u (children s)) s) # updateStepRecursive u ss"
  unfolding updateStepRecursive.simps [of u ss]
  by (subst updateStepRecursive.simps, cases s) (simp add: updateStepRecursive_Nil)

lemma deleteStepRecursive_Nil: "deleteStepRecursive x [] = []"
  by (subst deleteStepRecursive.simps) simp

lemma deleteStepRecursive_Cons:
  "deleteStepRecursive x (s # ss) =
     (if sid s = x then deleteStepRecursive x ss
      else with_children (deleteStepRecursive x (children s)) s # deleteStepRecursive x ss)"
  unfolding deleteStepRecursive.simps [of x ss]
  by (subst deleteStepRecursive.simps, cases s) simp

lemma force_Nil: "toggleCompletionRecursiveForce [] b = []"
  by (subst toggleCompletionRecursiveForce.simps) simp

lemma force_Cons:
  "toggleCompletionRecursiveForce (s # ss) b =
     with_children (toggleCompletionRecursiveForce (children s) b) (with_completed b s)
       # toggleCompletionRecursiveForce ss b"
  unfolding toggleCompletionRecursiveForce.simps [of ss b]
  by (subst toggleCompletionRecursiveForce.simps, cases s) simp

lemma force_children:
  "map (\<lambda>child. with_children (toggleCompletionRecursiveForce (children child) b)
          (with_completed b child)) ch = toggleCompletionRecursiveForce ch b"
  by (induction ch) (simp_all add: force_Nil force_Cons)

lemma toggle_Nil: "toggleCompletionRecursive x [] = []"
  by (subst toggleCompletionRecursive.simps) simp

lemma toggle_Cons:
  "toggleCompletionRecursive x (s # ss) =
     (if sid s = x
      then with_children (toggleCompletionRecursiveForce (children s) (\<not> completed s))
             (with_completed (\<not> completed s) s)
      else with_children (toggleCompletionRecursive x (children s)) s)
       # toggleCompletionRecursive x ss"
  unfolding toggleCompletionRecursive.simps [of x ss]
  by (subst toggleCompletionRecursive.simps, cases s) (simp add: toggle_Nil force_children Let_def)

lemma addDup_Nil: "addDuplicatedStepToParent pid dup [] = []"
  by (subst addDuplicatedStepToParent.simps) simp

lemma addDup_Cons:
  "addDuplicatedStepToParent pid dup (s # ss) =
     (if sid s = pid then with_children (children s @ [dup]) s
      else with_children (addDuplicatedStepToParent pid dup (children s)) s)
       # addDuplicatedStepToParent pid dup ss"
  unfolding addDuplicatedStepToParent.simps [of pid dup ss]
  by (subst addDuplicatedStepToParent.simps, cases s) (simp add: addDup_Nil)

lemma dup_order_Cons:
  "duplicatedStep_order pid cur (s # ss) =
     (if sid s = pid then duplicatedStep_order pid (findMaxOrder (children s) (Some (sid s)) + 1) ss
      else duplicatedStep_order pid (duplicatedStep_order pid cur (children s)) ss)"
  by (cases s) simp

lemma addNew_Nil: "addStepToNewParent g pid m [] = []"
  by (subst addStepToNewParent.simps) simp

lemma addNew_Cons:
  "addStepToNewParent g pid m (s # ss) =
     (if sid s = pid
      then with_children (children s @ [with_order (getMaxOrder g [] (Some (sid s)) + 1) m]) s
      else with_children (addStepToNewParent g pid m (children s)) s)
       # addStepToNewParent g pid m ss"
  unfolding addStepToNewParent.simps [of g pid m ss]
  by (subst addStepToNewParent.simps, cases s) (simp add: addNew_Nil)

lemma remove_Nil: "removeStepFromParent [] x = []"
  by (subst removeStepFromParent.simps) simp

lemma remove_unfold:
  "removeStepFromParent stps x =
     (if \<exists>s\<in>set stps. sid s = x then filter (\<lambda>s. sid s \<noteq> x) stps
      else map (\<lambda>s. with_children (removeStepFromParent (children s) x) s) stps)"
proof -
  have inner: "(if \<exists>c\<in>set ch. sid c = x then filter (\<lambda>c. sid c \<noteq> x) ch
                else removeStepFromParent ch x) = removeStepFromParent ch x" for ch
  proof (cases "\<exists>c\<in>set ch. sid c = x")
    case True
    then have "removeStepFromParent ch x = filter (\<lambda>c. sid c \<noteq> x) ch"
      by (subst removeStepFromParent.simps) simp
    with True show ?thesis by simp
  next
    case False
    then show ?thesis by simp
  qed
  have "(\<lambda>s. case s of Step i t d c p ch ord \<Rightarrow>
               Step i t d c p
                 (if \<exists>c\<in>set ch. sid c = x then filter (\<lambda>c. sid c \<noteq> x) ch
                  else removeStepFromParent ch x) ord)
        = (\<lambda>s. with_children (removeStepFromParent (children s) x) s)"
    by (rule ext) (simp add: inner split: step.split)
  then show ?thesis
    by (subst removeStepFromParent.simps) simp
qed


lemma reorder_nested_Nil: "truthy pid \<Longrightarrow> reorderStepsAtSameLevel [] x k pid = []"
  by (subst reorderStepsAtSameLevel.simps) simp

lemma reorder_root:
  "\<not> truthy pid \<Longrightarrow> reorderStepsAtSameLevel stps x k pid =
     (case findIndex (\<lambda>s. sid s = x) stps of
        None \<Rightarrow> stps
      | Some sourceIndex \<Rightarrow> renumber (move_within sourceIndex k stps))"
  by (subst reorderStepsAtSameLevel.simps) simp

lemma reorder_nested_Cons:
  "truthy pid \<Longrightarrow> reorderStepsAtSameLevel (s # ss) x k pid =
     (if Some (sid s) = pid then
        (case findIndex (\<lambda>s. sid s = x) (children s) of
           None \<Rightarrow> s
         | Some sourceIndex \<Rightarrow>
             with_children (renumber (move_within sourceIndex k (children s))) s)
      else with_children (reorderStepsAtSameLevel (children s) x k pid) s)
       # reorderStepsAtSameLevel ss x k pid"
  unfolding reorderStepsAtSameLevel.simps [of ss x k pid]
  by (subst reorderStepsAtSameLevel.simps, cases s)
     (simp add: reorder_nested_Nil split: option.split)

section \<open>Steps, identifiers and findStep\<close>

lemma ids_Nil [simp]: "ids [] = []"
  by (simp add: ids_def)

lemma ids_Cons: "ids (s # ss) = sid s # ids (children s) @ ids ss"
  by (simp add: ids_def steps_of_Cons)

lemma nodes_Nil [simp]: "nodes [] = []"
  by (simp add: nodes_def)

lemma nodes_Cons: "nodes (s # ss) = node_of s # nodes (children s) @ nodes ss"
  by (simp add: nodes_def steps_of_Cons)

lemma child_counts_Nil [simp]: "child_counts [] = []"
  by (simp add: child_counts_def)

lemma child_counts_Cons:
  "child_counts (s # ss) = length (children s) # child_counts (children s) @ child_counts ss"
  by (simp add: child_counts_def steps_of_Cons)

lemma node_ids: "map node_id (nodes stps) = ids stps"
  by (simp add: nodes_def ids_def node_of_def)

lemma ids_single: "ids [s] = sid s # ids (children s)"
  by (simp add: ids_Cons)

lemma ids_append: "ids (xs @ ys) = ids xs @ ids ys"
  by (induction xs) (simp_all add: ids_Cons)

lemma steps_of_append: "steps_of (xs @ ys) = steps_of xs @ steps_of ys"
  by (induction xs) (simp_all add: steps_of_Cons)

lemma nodes_append: "nodes (xs @ ys) = nodes xs @ nodes ys"
  by (simp add: nodes_def steps_of_append)

lemma roots_in_steps_of: "set stps \<subseteq> set (steps_of stps)"
  by (induction stps) (auto simp: steps_of_Cons)

lemma subtree_steps:
  "s \<in> set (steps_of stps) \<Longrightarrow> set (steps_of (children s)) \<subseteq> set (steps_of stps)"
  by (induction stps rule: forest_induct) (auto simp: steps_of_Cons)

lemma subtree_ids:
  "s \<in> set (steps_of stps) \<Longrightarrow> set (ids [s]) \<subseteq> set (ids stps)"
  using subtree_steps [of s stps] by (auto simp: ids_def steps_of_Cons)


lemma find_None_iff: "findStepRecursive stps x = None \<longleftrightarrow> x \<notin> set (ids stps)"
  by (induction stps rule: forest_induct)
     (auto simp: findStepRecursive_Cons ids_Cons split: option.splits)

lemma find_Some_mem:
  "findStepRecursive stps x = Some s \<Longrightarrow> s \<in> set (steps_of stps) \<and> sid s = x"
  by (induction stps rule: forest_induct)
     (auto simp: findStepRecursive_Cons steps_of_Cons split: option.splits if_splits)

lemma find_subtree_ids:
  "findStepRecursive stps x = Some s \<Longrightarrow> set (ids [s]) \<subseteq> set (ids stps)"
  using find_Some_mem subtree_ids by blast

lemma find_distinct:
  "distinct (ids stps) \<Longrightarrow> s \<in> set (steps_of stps) \<Longrightarrow> findStepRecursive stps (sid s) = Some s"
proof (induction stps rule: forest_induct)
  case Nil
  then show ?case by simp
next
  case (Cons a ss)
  from Cons.prems(1) have d: "distinct (ids (children a))" "distinct (ids ss)"
    "sid a \<notin> set (ids (children a))" "sid a \<notin> set (ids ss)"
    "set (ids (children a)) \<inter> set (ids ss) = {}"
    by (simp_all add: ids_Cons)
  from Cons.prems(2) consider "s = a" | "s \<noteq> a" "s \<in> set (steps_of (children a))"
    | "s \<noteq> a" "s \<in> set (steps_of ss)"
    by (auto simp: steps_of_Cons)
  then show ?case
  proof cases
    case 1
    then show ?thesis by (simp add: findStepRecursive_Cons)
  next
    case 2
    then have "sid s \<in> set (ids (children a))" by (auto simp: ids_def)
    with d have "sid a \<noteq> sid s" by auto
    with 2 Cons.IH(1) d show ?thesis by (simp add: findStepRecursive_Cons)
  next
    case 3
    then have in_ss: "sid s \<in> set (ids ss)" by (auto simp: ids_def)
    with d have "sid a \<noteq> sid s" "sid s \<notin> set (ids (children a))" by auto
    then have "findStepRecursive (children a) (sid s) = None" "sid a \<noteq> sid s"
      by (simp_all add: find_None_iff)
    with 3 Cons.IH(2) d show ?thesis by (simp add: findStepRecursive_Cons)
  qed
qed

subsection \<open>A helper that looks for an id the forest does not hold changes nothing\<close>

lemma addStepRecursive_absent: "x \<notin> set (ids stps) \<Longrightarrow> addStepRecursive x st stps = stps"
  by (induction stps rule: forest_induct)
     (auto simp: addStepRecursive_Nil addStepRecursive_Cons ids_Cons)

lemma updateStepRecursive_absent:
  "sid u \<notin> set (ids stps) \<Longrightarrow> updateStepRecursive u stps = stps"
  by (induction stps rule: forest_induct)
     (auto simp: updateStepRecursive_Nil updateStepRecursive_Cons ids_Cons)

lemma deleteStepRecursive_absent: "x \<notin> set (ids stps) \<Longrightarrow> deleteStepRecursive x stps = stps"
  by (induction stps rule: forest_induct)
     (auto simp: deleteStepRecursive_Nil deleteStepRecursive_Cons ids_Cons)

lemma toggle_absent: "x \<notin> set (ids stps) \<Longrightarrow> toggleCompletionRecursive x stps = stps"
  by (induction stps rule: forest_induct)
     (auto simp: toggle_Nil toggle_Cons ids_Cons)

lemma addDup_absent: "x \<notin> set (ids stps) \<Longrightarrow> addDuplicatedStepToParent x d stps = stps"
  by (induction stps rule: forest_induct)
     (auto simp: addDup_Nil addDup_Cons ids_Cons)


lemma map_with_children_id:
  "(\<And>s. s \<in> set stps \<Longrightarrow> f (children s) = children s) \<Longrightarrow>
   map (\<lambda>s. with_children (f (children s)) s) stps = stps"
  by (induction stps) simp_all

lemma remove_absent: "x \<notin> set (ids stps) \<Longrightarrow> removeStepFromParent stps x = stps"
proof (induction stps rule: forest_induct)
  case Nil
  then show ?case by (simp add: remove_Nil)
next
  case (Cons s ss)
  from Cons.prems have a: "sid s \<noteq> x" "x \<notin> set (ids (children s))" "x \<notin> set (ids ss)"
    by (auto simp: ids_Cons)
  from a(3) have no_root: "\<not> (\<exists>r\<in>set ss. sid r = x)"
    using roots_in_steps_of [of ss] by (auto simp: ids_def)
  from Cons.IH(2) a(3) no_root
  have "map (\<lambda>s. with_children (removeStepFromParent (children s) x) s) ss = ss"
    by (simp add: remove_unfold [of ss])
  with a no_root Cons.IH(1) show ?case
    by (simp add: remove_unfold [of "s # ss"])
qed

lemma findIndex_None: "findIndex P xs = None \<longleftrightarrow> (\<forall>x\<in>set xs. \<not> P x)"
  by (induction xs) auto

lemma reorder_absent_step:
  "x \<notin> set (ids stps) \<Longrightarrow> reorderStepsAtSameLevel stps x k pid = stps"
proof (cases "truthy pid")
  case False
  assume "x \<notin> set (ids stps)"
  then have "\<forall>s\<in>set stps. sid s \<noteq> x"
    using roots_in_steps_of [of stps] by (auto simp: ids_def)
  then have "findIndex (\<lambda>s. sid s = x) stps = None"
    by (simp add: findIndex_None)
  with False show ?thesis by (simp add: reorder_root)
next
  case True
  assume "x \<notin> set (ids stps)"
  then show ?thesis
  proof (induction stps rule: forest_induct)
    case Nil
    with True show ?case by (simp add: reorder_nested_Nil)
  next
    case (Cons s ss)
    from Cons.prems have a: "x \<notin> set (ids (children s))" "x \<notin> set (ids ss)"
      by (simp_all add: ids_Cons)
    from a(1) have "\<forall>c\<in>set (children s). sid c \<noteq> x"
      using roots_in_steps_of [of "children s"] by (auto simp: ids_def)
    then have "findIndex (\<lambda>s. sid s = x) (children s) = None"
      by (simp add: findIndex_None)
    with a Cons.IH True show ?case by (simp add: reorder_nested_Cons)
  qed
qed

lemma reorder_absent_parent:
  "truthy (Some q) \<Longrightarrow> q \<notin> set (ids stps) \<Longrightarrow> reorderStepsAtSameLevel stps x k (Some q) = stps"
  by (induction stps rule: forest_induct)
     (auto simp: reorder_nested_Nil reorder_nested_Cons ids_Cons)

text \<open>The equations that evaluate the operations on a given forest.\<close>

lemmas forest_eval =
  steps_of_Cons ids_def nodes_def child_counts_def node_of_def findStep_def
  findStepRecursive_Cons addStepRecursive_Nil addStepRecursive_Cons
  updateStepRecursive_Nil updateStepRecursive_Cons deleteStepRecursive_Nil
  deleteStepRecursive_Cons force_Nil force_Cons toggle_Nil toggle_Cons addDup_Nil addDup_Cons
  dup_order_Cons addNew_Nil addNew_Cons remove_unfold truthy_def Math_max0_def findMaxOrder_def
  getMaxOrder_def

section \<open>C3: operations aimed at an identifier the tree does not hold\<close>

text \<open>
  C3 (as amended). When no step of the goal has identifier \<open>x\<close>, \<^verbatim>\<open>addStep\<close> with parent
  \<open>x\<close>, \<^verbatim>\<open>updateStep\<close> with a step whose id is \<open>x\<close>, \<^verbatim>\<open>deleteStep\<close>,
  \<^verbatim>\<open>toggleStepCompletion\<close> and \<^verbatim>\<open>reorderStep\<close> (with \<open>x\<close> as the step or as the parent)
  return the input goal with \<^verbatim>\<open>updatedAt\<close> set to the current time and every other field,
  the whole step tree included, as it was. \<^verbatim>\<open>duplicateStep\<close> and \<^verbatim>\<open>moveStepToParent\<close> of
  a missing step return the input goal itself, \<^verbatim>\<open>updatedAt\<close> included. Through the
  context, \<^verbatim>\<open>addStep\<close> under a missing parent does what the helper does, and \<^verbatim>\<open>updateStep\<close>
  of a missing step throws \<^verbatim>\<open>Step not found\<close>.
\<close>

theorem C3_missing_id:
  assumes "x \<notin> set (ids (steps g))"
  shows "(x \<noteq> [] \<longrightarrow> addStep now g st (Some x) = g\<lparr>updatedAt := now\<rparr>)
    \<and> (sid u = x \<longrightarrow> updateStep now g u = g\<lparr>updatedAt := now\<rparr>)
    \<and> deleteStep now g x = g\<lparr>updatedAt := now\<rparr>
    \<and> toggleStepCompletion now g x = g\<lparr>updatedAt := now\<rparr>
    \<and> reorderStep now g x k pid = g\<lparr>updatedAt := now\<rparr>
    \<and> (x \<noteq> [] \<longrightarrow> reorderStep now g y k (Some x) = g\<lparr>updatedAt := now\<rparr>)
    \<and> duplicateStep now gen n g x = g
    \<and> moveStepToParent fuel now g x pid = Some g
    \<and> (x \<noteq> [] \<longrightarrow> ctx_addStep now newId g t d (Some x) = g\<lparr>updatedAt := now\<rparr>)
    \<and> ctx_updateStep now g x t d = Inl StepNotFound"
proof -
  have nf: "findStep g x = None"
    using assms by (simp add: findStep_def find_None_iff)
  have 1: "x \<noteq> [] \<longrightarrow> addStep now g st (Some x) = g\<lparr>updatedAt := now\<rparr>"
    using assms by (simp add: addStep_def addStepRecursive_absent)
  have 2: "sid u = x \<longrightarrow> updateStep now g u = g\<lparr>updatedAt := now\<rparr>"
    using assms by (auto simp: updateStep_def updateStepRecursive_absent)
  have 3: "deleteStep now g x = g\<lparr>updatedAt := now\<rparr>"
    using assms by (simp add: deleteStep_def deleteStepRecursive_absent)
  have 4: "toggleStepCompletion now g x = g\<lparr>updatedAt := now\<rparr>"
    using assms by (simp add: toggleStepCompletion_def toggle_absent)
  have 5: "reorderStep now g x k pid = g\<lparr>updatedAt := now\<rparr>"
    using assms by (simp add: reorderStep_def reorder_absent_step)
  have 6: "x \<noteq> [] \<longrightarrow> reorderStep now g y k (Some x) = g\<lparr>updatedAt := now\<rparr>"
    using assms by (simp add: reorderStep_def reorder_absent_parent truthy_def)
  have 7: "duplicateStep now gen n g x = g"
    using nf by (simp add: duplicateStep_def)
  have 8: "moveStepToParent fuel now g x pid = Some g"
    using nf by (simp add: moveStepToParent_def)
  have 9: "x \<noteq> [] \<longrightarrow> ctx_addStep now newId g t d (Some x) = g\<lparr>updatedAt := now\<rparr>"
    using assms by (simp add: ctx_addStep_def addStep_def addStepRecursive_absent truthy_def)
  have 10: "ctx_updateStep now g x t d = Inl StepNotFound"
    using nf by (simp add: ctx_updateStep_def)
  from 1 2 3 4 5 6 7 8 9 10 show ?thesis by blast
qed

text \<open>The same on the example goal, which has no step \<open>q\<close>.\<close>

theorem C3_missing_id_witness:
  "''q'' \<notin> set (ids (steps ex_goal))
   \<and> ''q'' \<noteq> [] \<and> sid (Step ''q'' ''Q'' None False None [] 0) = ''q''
   \<and> addStep 7 ex_goal (Step ''n'' ''N'' None False (Some ''q'') [] 0) (Some ''q'')
       = ex_goal\<lparr>updatedAt := 7\<rparr>
   \<and> updateStep 7 ex_goal (Step ''q'' ''Q'' None False None [] 0) = ex_goal\<lparr>updatedAt := 7\<rparr>
   \<and> deleteStep 7 ex_goal ''q'' = ex_goal\<lparr>updatedAt := 7\<rparr>
   \<and> toggleStepCompletion 7 ex_goal ''q'' = ex_goal\<lparr>updatedAt := 7\<rparr>
   \<and> reorderStep 7 ex_goal ''q'' 0 None = ex_goal\<lparr>updatedAt := 7\<rparr>
   \<and> reorderStep 7 ex_goal ''x'' 1 (Some ''q'') = ex_goal\<lparr>updatedAt := 7\<rparr>
   \<and> duplicateStep 7 (\<lambda>k. ''n'') 0 ex_goal ''q'' = ex_goal
   \<and> moveStepToParent 0 7 ex_goal ''q'' (Some ''a'') = Some ex_goal
   \<and> ctx_addStep 7 ''n'' ex_goal ''N'' None (Some ''q'') = ex_goal\<lparr>updatedAt := 7\<rparr>
   \<and> ctx_updateStep 7 ex_goal ''q'' ''N'' None = Inl StepNotFound"
proof -
  have h: "''q'' \<notin> set (ids (steps ex_goal))"
    by (simp add: ex_goal_def forest_eval)
  show ?thesis
    using h
      C3_missing_id [OF h, where now = 7 and st = "Step ''n'' ''N'' None False (Some ''q'') [] 0"
        and u = "Step ''q'' ''Q'' None False None [] 0" and k = 0 and pid = None
        and y = "''x''" and gen = "\<lambda>k. ''n''" and n = 0 and fuel = 0 and newId = "''n''"
        and t = "''N''" and d = None]
      C3_missing_id [OF h, where now = 7 and st = "Step ''n'' ''N'' None False (Some ''q'') [] 0"
        and u = "Step ''q'' ''Q'' None False None [] 0" and k = 1 and pid = "Some ''a''"
        and y = "''x''" and gen = "\<lambda>k. ''n''" and n = 0 and fuel = 0]
    by simp
qed

text \<open>
  C3 as stated asks for a result equal to the input, \<^verbatim>\<open>updatedAt\<close> included: deleting the
  missing step \<open>q\<close> at time 7 from the example goal, last updated at time 0, gives a
  different goal.
\<close>

theorem C3_counterexample:
  "''q'' \<notin> set (ids (steps ex_goal)) \<and> deleteStep 7 ex_goal ''q'' \<noteq> ex_goal"
proof -
  have "updatedAt (deleteStep 7 ex_goal ''q'') = 7"
    by (simp add: deleteStep_def)
  moreover have "updatedAt ex_goal = 0"
    by (simp add: ex_goal_def)
  moreover have "''q'' \<notin> set (ids (steps ex_goal))"
    by (simp add: ex_goal_def forest_eval)
  ultimately show ?thesis by auto
qed

section \<open>Frame lemmas: what an operation does to each node\<close>

lemma node_of_with [simp]:
  "node_of (with_children ch s) = node_of s"
  "node_of (with_completed b s) = (node_of s)\<lparr>node_completed := b\<rparr>"
  "node_of (with_order k s) = (node_of s)\<lparr>node_order := k\<rparr>"
  "node_of (with_parentId q s) = (node_of s)\<lparr>node_parentId := q\<rparr>"
  "node_of (with_title t s) = (node_of s)\<lparr>node_title := t\<rparr>"
  "node_of (with_description d s) = (node_of s)\<lparr>node_description := d\<rparr>"
  by (simp_all add: node_of_def)

lemma node_of_id [simp]: "node_id (node_of s) = sid s"
  by (simp add: node_of_def)

lemma map_if_outside:
  "set (map node_id vs) \<inter> A = {} \<Longrightarrow> map (\<lambda>v. if node_id v \<in> A then f v else v) vs = vs"
  by (induction vs) auto

lemma map_if_inside:
  "set (map node_id vs) \<subseteq> A \<Longrightarrow> map (\<lambda>v. if node_id v \<in> A then f v else v) vs = map f vs"
  by (induction vs) auto

lemma filter_outside:
  "set (map node_id vs) \<inter> A = {} \<Longrightarrow> filter (\<lambda>v. node_id v \<notin> A) vs = vs"
  by (induction vs) auto

lemma filter_inside:
  "set (map node_id vs) \<subseteq> A \<Longrightarrow> filter (\<lambda>v. node_id v \<notin> A) vs = []"
  by (induction vs) auto

lemma force_nodes:
  "nodes (toggleCompletionRecursiveForce ch b) = map (\<lambda>v. v\<lparr>node_completed := b\<rparr>) (nodes ch)"
  by (induction ch rule: forest_induct) (simp_all add: force_Nil force_Cons nodes_Cons)

lemma force_length: "length (toggleCompletionRecursiveForce ch b) = length ch"
  by (induction ch) (simp_all add: force_Nil force_Cons)

lemma force_counts: "child_counts (toggleCompletionRecursiveForce ch b) = child_counts ch"
  by (induction ch rule: forest_induct)
     (simp_all add: force_Nil force_Cons child_counts_Cons force_length)

lemma toggle_length: "length (toggleCompletionRecursive x stps) = length stps"
  by (induction stps) (simp_all add: toggle_Nil toggle_Cons)

lemma toggle_counts: "child_counts (toggleCompletionRecursive x stps) = child_counts stps"
  by (induction stps rule: forest_induct)
     (simp_all add: toggle_Nil toggle_Cons child_counts_Cons force_counts force_length
        toggle_length)

lemma distinct_ids_Cons:
  "distinct (ids (s # ss)) \<longleftrightarrow>
     distinct (ids (children s)) \<and> distinct (ids ss) \<and> sid s \<notin> set (ids (children s))
     \<and> sid s \<notin> set (ids ss) \<and> set (ids (children s)) \<inter> set (ids ss) = {}"
  by (auto simp: ids_Cons)

lemma toggle_nodes:
  "distinct (ids stps) \<Longrightarrow> findStepRecursive stps x = Some X \<Longrightarrow>
   nodes (toggleCompletionRecursive x stps) =
     map (\<lambda>v. if node_id v \<in> set (ids [X]) then v\<lparr>node_completed := \<not> completed X\<rparr> else v)
       (nodes stps)"
proof (induction stps rule: forest_induct)
  case Nil
  then show ?case by simp
next
  case (Cons s ss)
  let ?A = "set (ids [X])"
  let ?F = "\<lambda>v. if node_id v \<in> ?A then v\<lparr>node_completed := \<not> completed X\<rparr> else v"
  from Cons.prems(1) have d: "distinct (ids (children s))" "distinct (ids ss)"
    "sid s \<notin> set (ids (children s))" "sid s \<notin> set (ids ss)"
    "set (ids (children s)) \<inter> set (ids ss) = {}"
    by (simp_all add: distinct_ids_Cons)
  consider (here) "sid s = x"
    | (below) "sid s \<noteq> x" "findStepRecursive (children s) x = Some X"
    | (right) "sid s \<noteq> x" "findStepRecursive (children s) x = None"
        "findStepRecursive ss x = Some X"
    using Cons.prems(2) by (auto simp: findStepRecursive_Cons split: if_splits option.splits)
  then show ?case
  proof cases
    case here
    with Cons.prems(2) have X: "X = s" by (simp add: findStepRecursive_Cons)
    have A: "?A = insert (sid s) (set (ids (children s)))" by (simp add: X ids_single)
    from here d have "toggleCompletionRecursive x ss = ss" by (simp add: toggle_absent)
    moreover have "map ?F (nodes ss) = nodes ss"
      using d by (intro map_if_outside) (auto simp: node_ids A)
    moreover have "map ?F (nodes (children s)) =
        map (\<lambda>v. v\<lparr>node_completed := \<not> completed X\<rparr>) (nodes (children s))"
      by (intro map_if_inside) (auto simp: node_ids A)
    moreover have "?F (node_of s) = (node_of s)\<lparr>node_completed := \<not> completed X\<rparr>"
      by (simp add: A)
    ultimately show ?thesis
      using here by (simp add: toggle_Cons nodes_Cons force_nodes X)
  next
    case below
    from below(2) have sub: "?A \<subseteq> set (ids (children s))" by (rule find_subtree_ids)
    from below(2) have "x \<in> set (ids (children s))"
      using find_None_iff [of "children s" x] by auto
    with d have "x \<notin> set (ids ss)" by auto
    then have "toggleCompletionRecursive x ss = ss" by (simp add: toggle_absent)
    moreover have "map ?F (nodes ss) = nodes ss"
      using d sub by (intro map_if_outside) (auto simp: node_ids)
    moreover have "?F (node_of s) = node_of s"
      using d sub by auto
    ultimately show ?thesis
      using below d Cons.IH(1) by (simp add: toggle_Cons nodes_Cons)
  next
    case right
    from right(3) have sub: "?A \<subseteq> set (ids ss)" by (rule find_subtree_ids)
    from right(2) have "toggleCompletionRecursive x (children s) = children s"
      by (simp add: toggle_absent find_None_iff)
    moreover have "map ?F (nodes (children s)) = nodes (children s)"
      using d sub by (intro map_if_outside) (auto simp: node_ids)
    moreover have "?F (node_of s) = node_of s"
      using d sub by auto
    ultimately show ?thesis
      using right d Cons.IH(2) by (simp add: toggle_Cons nodes_Cons)
  qed
qed

lemma update_length: "length (updateStepRecursive u stps) = length stps"
  by (induction stps) (simp_all add: updateStepRecursive_Nil updateStepRecursive_Cons)

lemma update_counts: "child_counts (updateStepRecursive u stps) = child_counts stps"
  by (induction stps rule: forest_induct)
     (simp_all add: updateStepRecursive_Nil updateStepRecursive_Cons child_counts_Cons
        update_length)

lemma update_nodes:
  "distinct (ids stps) \<Longrightarrow>
   nodes (updateStepRecursive u stps) =
     map (\<lambda>v. if node_id v \<in> {sid u} then node_of u else v) (nodes stps)"
proof (induction stps rule: forest_induct)
  case Nil
  then show ?case by (simp add: updateStepRecursive_Nil)
next
  case (Cons s ss)
  let ?F = "\<lambda>v. if node_id v \<in> {sid u} then node_of u else v"
  from Cons.prems(1) have d: "distinct (ids (children s))" "distinct (ids ss)"
    "sid s \<notin> set (ids (children s))" "sid s \<notin> set (ids ss)"
    by (simp_all add: distinct_ids_Cons)
  show ?case
  proof (cases "sid s = sid u")
    case True
    with d have "updateStepRecursive u ss = ss" by (simp add: updateStepRecursive_absent)
    moreover have "map ?F (nodes ss) = nodes ss"
      using d True by (intro map_if_outside) (auto simp: node_ids)
    moreover have "map ?F (nodes (children s)) = nodes (children s)"
      using d True by (intro map_if_outside) (auto simp: node_ids)
    ultimately show ?thesis
      using True by (simp add: updateStepRecursive_Cons nodes_Cons)
  next
    case False
    with d Cons.IH show ?thesis
      by (simp add: updateStepRecursive_Cons nodes_Cons)
  qed
qed

lemma node_of_found:
  assumes "distinct (ids stps)" and "findStepRecursive stps x = Some X"
    and "v \<in> set (nodes stps)" and "node_id v = x"
  shows "v = node_of X"
proof -
  from assms(3) obtain s where s: "s \<in> set (steps_of stps)" "v = node_of s"
    by (auto simp: nodes_def)
  with assms(4) have "sid s = x" by simp
  with find_distinct [OF assms(1) s(1)] assms(2) have "s = X" by simp
  with s show ?thesis by simp
qed

lemma delete_nodes:
  "distinct (ids stps) \<Longrightarrow> findStepRecursive stps x = Some X \<Longrightarrow>
   nodes (deleteStepRecursive x stps) = filter (\<lambda>v. node_id v \<notin> set (ids [X])) (nodes stps)"
proof (induction stps rule: forest_induct)
  case Nil
  then show ?case by simp
next
  case (Cons s ss)
  let ?A = "set (ids [X])"
  from Cons.prems(1) have d: "distinct (ids (children s))" "distinct (ids ss)"
    "sid s \<notin> set (ids (children s))" "sid s \<notin> set (ids ss)"
    "set (ids (children s)) \<inter> set (ids ss) = {}"
    by (simp_all add: distinct_ids_Cons)
  consider (here) "sid s = x"
    | (below) "sid s \<noteq> x" "findStepRecursive (children s) x = Some X"
    | (right) "sid s \<noteq> x" "findStepRecursive (children s) x = None"
        "findStepRecursive ss x = Some X"
    using Cons.prems(2) by (auto simp: findStepRecursive_Cons split: if_splits option.splits)
  then show ?case
  proof cases
    case here
    with Cons.prems(2) have X: "X = s" by (simp add: findStepRecursive_Cons)
    have A: "?A = insert (sid s) (set (ids (children s)))" by (simp add: X ids_single)
    from here d have "deleteStepRecursive x ss = ss" by (simp add: deleteStepRecursive_absent)
    moreover have "filter (\<lambda>v. node_id v \<notin> ?A) (nodes ss) = nodes ss"
      using d by (intro filter_outside) (auto simp: node_ids A)
    moreover have "filter (\<lambda>v. node_id v \<notin> ?A) (nodes (children s)) = []"
      by (intro filter_inside) (auto simp: node_ids A)
    moreover have "sid s \<in> ?A" by (simp add: A)
    ultimately show ?thesis
      using here by (simp add: deleteStepRecursive_Cons nodes_Cons)
  next
    case below
    from below(2) have sub: "?A \<subseteq> set (ids (children s))" by (rule find_subtree_ids)
    from below(2) have "x \<in> set (ids (children s))"
      using find_None_iff [of "children s" x] by auto
    with d have "x \<notin> set (ids ss)" by auto
    then have "deleteStepRecursive x ss = ss" by (simp add: deleteStepRecursive_absent)
    moreover have "filter (\<lambda>v. node_id v \<notin> ?A) (nodes ss) = nodes ss"
      using d sub by (intro filter_outside) (auto simp: node_ids)
    moreover have "sid s \<notin> ?A"
      using d sub by auto
    ultimately show ?thesis
      using below d Cons.IH(1) by (simp add: deleteStepRecursive_Cons nodes_Cons)
  next
    case right
    from right(3) have sub: "?A \<subseteq> set (ids ss)" by (rule find_subtree_ids)
    from right(2) have "deleteStepRecursive x (children s) = children s"
      by (simp add: deleteStepRecursive_absent find_None_iff)
    moreover have "filter (\<lambda>v. node_id v \<notin> ?A) (nodes (children s)) = nodes (children s)"
      using d sub by (intro filter_outside) (auto simp: node_ids)
    moreover have "sid s \<notin> ?A"
      using d sub by auto
    ultimately show ?thesis
      using right d Cons.IH(2) by (simp add: deleteStepRecursive_Cons nodes_Cons)
  qed
qed

section \<open>C6: toggling completion cascades downwards only\<close>

text \<open>
  C6. In a goal whose step identifiers are unique (I1), let \<open>X\<close> be the step found for
  \<open>x\<close>. \<^verbatim>\<open>toggleStepCompletion\<close> returns the same tree, node for node in pre-order and
  with the same child counts, in which \<open>X\<close> and every descendant of \<open>X\<close> (the nodes whose
  id is in \<open>ids [X]\<close>) have \<^verbatim>\<open>completed\<close> equal to the negation of \<open>X\<close>'s old flag, and
  every other node, the ancestors of \<open>X\<close> among them, is exactly as before.
\<close>

theorem C6_toggle_cascade:
  assumes "distinct (ids (steps g))" and "findStep g x = Some X"
  shows "nodes (steps (toggleStepCompletion now g x)) =
           map (\<lambda>v. if node_id v \<in> set (ids [X])
                     then v\<lparr>node_completed := \<not> completed X\<rparr> else v)
             (nodes (steps g))
       \<and> child_counts (steps (toggleStepCompletion now g x)) = child_counts (steps g)"
  using assms by (simp add: toggleStepCompletion_def findStep_def toggle_nodes toggle_counts)

text \<open>
  On the example goal: toggling \<open>x\<close> (not completed, with the completed child \<open>z\<close>) makes
  \<open>x\<close> completed and leaves \<open>z\<close> completed; \<open>a\<close>, \<open>y\<close> and \<open>b\<close> keep their flags.
\<close>

theorem C6_toggle_cascade_witness:
  "distinct (ids (steps ex_goal))
   \<and> findStep ex_goal ''x'' =
       Some (Step ''x'' ''X'' (Some ''first'') False (Some ''a'')
               [Step ''z'' ''Z'' None True (Some ''x'') [] 0] 0)
   \<and> map (\<lambda>v. (node_id v, node_completed v)) (nodes (steps (toggleStepCompletion 7 ex_goal ''x'')))
       = [(''a'', False), (''x'', True), (''z'', True), (''y'', False), (''b'', False)]
   \<and> child_counts (steps (toggleStepCompletion 7 ex_goal ''x'')) = [2, 1, 0, 0, 0]"
proof -
  have h1: "distinct (ids (steps ex_goal))"
    by (simp add: ex_goal_def forest_eval)
  have h2: "findStep ex_goal ''x'' =
       Some (Step ''x'' ''X'' (Some ''first'') False (Some ''a'')
               [Step ''z'' ''Z'' None True (Some ''x'') [] 0] 0)"
    by (simp add: ex_goal_def forest_eval)
  show ?thesis
    using h1 h2 C6_toggle_cascade [OF h1 h2, of 7]
    by (simp add: ex_goal_def forest_eval)
qed

section \<open>C7: deleting a step removes its subtree and renumbers nothing\<close>

text \<open>
  C7. In a goal whose step identifiers are unique (I1), let \<open>X\<close> be the step found for
  \<open>x\<close>, at the root or nested. The nodes of the goal returned by \<^verbatim>\<open>deleteStep\<close> are, in
  pre-order, the nodes of the input that are neither \<open>X\<close> nor a descendant of \<open>X\<close>, each
  with all its fields (its \<^verbatim>\<open>order\<close> among them) unchanged; so no identifier of \<open>X\<close>'s
  subtree is left in the result.
\<close>

theorem C7_delete_subtree:
  assumes "distinct (ids (steps g))" and "findStep g x = Some X"
  shows "nodes (steps (deleteStep now g x)) =
           filter (\<lambda>v. node_id v \<notin> set (ids [X])) (nodes (steps g))
       \<and> set (ids (steps (deleteStep now g x))) \<inter> set (ids [X]) = {}"
proof -
  have n: "nodes (steps (deleteStep now g x)) =
           filter (\<lambda>v. node_id v \<notin> set (ids [X])) (nodes (steps g))"
    using assms by (simp add: deleteStep_def findStep_def delete_nodes)
  have "ids (steps (deleteStep now g x)) = map node_id (nodes (steps (deleteStep now g x)))"
    by (simp add: node_ids)
  with n have "set (ids (steps (deleteStep now g x))) \<inter> set (ids [X]) = {}"
    by auto
  with n show ?thesis by simp
qed

text \<open>
  On the example goal: deleting \<open>x\<close> removes \<open>x\<close> and its child \<open>z\<close>; its sibling \<open>y\<close>
  keeps order 1, so the children of \<open>a\<close> are left with a gap at 0.
\<close>

theorem C7_delete_subtree_witness:
  "distinct (ids (steps ex_goal))
   \<and> findStep ex_goal ''x'' =
       Some (Step ''x'' ''X'' (Some ''first'') False (Some ''a'')
               [Step ''z'' ''Z'' None True (Some ''x'') [] 0] 0)
   \<and> map (\<lambda>v. (node_id v, node_order v)) (nodes (steps (deleteStep 7 ex_goal ''x'')))
       = [(''a'', 0), (''y'', 1), (''b'', 1)]
   \<and> set (ids (steps (deleteStep 7 ex_goal ''x''))) \<inter> {''x'', ''z''} = {}"
proof -
  have h1: "distinct (ids (steps ex_goal))"
    by (simp add: ex_goal_def forest_eval)
  have h2: "findStep ex_goal ''x'' =
       Some (Step ''x'' ''X'' (Some ''first'') False (Some ''a'')
               [Step ''z'' ''Z'' None True (Some ''x'') [] 0] 0)"
    by (simp add: ex_goal_def forest_eval)
  show ?thesis
    using h1 h2 C7_delete_subtree [OF h1 h2, of 7]
    by (simp add: ex_goal_def forest_eval)
qed

section \<open>C8: updating a step replaces its title and description only\<close>

text \<open>
  C8 (as amended). In a goal whose step identifiers are unique (I1): when \<^verbatim>\<open>findStep\<close>
  finds the step, the context's \<^verbatim>\<open>updateStep\<close> returns a goal with the same tree, node for
  node in pre-order and with the same child counts, in which the node with identifier
  \<open>x\<close> has the new title and description and its other fields (\<^verbatim>\<open>completed\<close>, \<^verbatim>\<open>parentId\<close>,
  \<^verbatim>\<open>order\<close>) as before, and every other node is unchanged; of the goal's own fields only
  \<^verbatim>\<open>updatedAt\<close> changes, to the current time. When the step is not found, nothing is
  returned unchanged: the context's \<^verbatim>\<open>updateStep\<close> throws \<^verbatim>\<open>Step not found\<close> and produces no
  goal, and \<^verbatim>\<open>stepHelpers.updateStep\<close>, given a step with such an id, returns the goal with
  its tree as it was and \<^verbatim>\<open>updatedAt\<close> set to the current time.
\<close>

theorem C8_update_frame:
  assumes "distinct (ids (steps g))"
  shows "(\<forall>X. findStep g x = Some X \<longrightarrow>
            (\<exists>g'. ctx_updateStep now g x t d = Inr g'
               \<and> nodes (steps g') =
                   map (\<lambda>v. if node_id v = x then v\<lparr>node_title := t, node_description := d\<rparr> else v)
                     (nodes (steps g))
               \<and> child_counts (steps g') = child_counts (steps g)
               \<and> g'\<lparr>steps := steps g\<rparr> = g\<lparr>updatedAt := now\<rparr>))
       \<and> (findStep g x = None \<longrightarrow>
            ctx_updateStep now g x t d = Inl StepNotFound
            \<and> (\<forall>u. sid u = x \<longrightarrow> updateStep now g u = g\<lparr>updatedAt := now\<rparr>))"
proof (intro conjI allI impI)
  fix X
  assume f: "findStep g x = Some X"
  let ?u = "with_description d (with_title t X)"
  from f have sx: "sid X = x"
    using find_Some_mem [of "steps g" x X] by (simp add: findStep_def)
  have "map (\<lambda>v. if node_id v \<in> {sid ?u} then node_of ?u else v) (nodes (steps g)) =
        map (\<lambda>v. if node_id v = x then v\<lparr>node_title := t, node_description := d\<rparr> else v)
          (nodes (steps g))"
  proof (rule map_cong [OF refl])
    fix v
    assume "v \<in> set (nodes (steps g))"
    then have "node_id v = x \<Longrightarrow> v = node_of X"
      using node_of_found [OF assms, of x X v] f by (simp add: findStep_def)
    then show "(if node_id v \<in> {sid ?u} then node_of ?u else v) =
               (if node_id v = x then v\<lparr>node_title := t, node_description := d\<rparr> else v)"
      using sx by auto
  qed
  then show "\<exists>g'. ctx_updateStep now g x t d = Inr g'
       \<and> nodes (steps g') =
           map (\<lambda>v. if node_id v = x then v\<lparr>node_title := t, node_description := d\<rparr> else v)
             (nodes (steps g))
       \<and> child_counts (steps g') = child_counts (steps g)
       \<and> g'\<lparr>steps := steps g\<rparr> = g\<lparr>updatedAt := now\<rparr>"
    using f assms by (simp add: ctx_updateStep_def updateStep_def update_nodes update_counts)
next
  assume "findStep g x = None"
  then show "ctx_updateStep now g x t d = Inl StepNotFound"
    by (simp add: ctx_updateStep_def)
next
  fix u
  assume "findStep g x = None" and "sid u = x"
  then show "updateStep now g u = g\<lparr>updatedAt := now\<rparr>"
    by (simp add: updateStep_def findStep_def find_None_iff updateStepRecursive_absent)
qed

text \<open>
  On the example goal, last updated at time 0: updating \<open>x\<close> at time 7 gives it the new
  title and description and keeps its flag, parent, order and child; updating the
  missing \<open>q\<close> throws, and the helper alone returns the goal with \<^verbatim>\<open>updatedAt\<close> 7.
\<close>

theorem C8_update_frame_witness:
  "distinct (ids (steps ex_goal))
   \<and> ctx_updateStep 7 ex_goal ''x'' ''New'' None =
       Inr (ex_goal\<lparr>updatedAt := 7,
              steps :=
                [Step ''a'' ''A'' None False None
                   [Step ''x'' ''New'' None False (Some ''a'')
                      [Step ''z'' ''Z'' None True (Some ''x'') [] 0] 0,
                    Step ''y'' ''Y'' None False (Some ''a'') [] 1] 0,
                 Step ''b'' ''B'' None False None [] 1]\<rparr>)
   \<and> findStep ex_goal ''q'' = None
   \<and> ctx_updateStep 7 ex_goal ''q'' ''New'' None = Inl StepNotFound
   \<and> updateStep 7 ex_goal (Step ''q'' ''New'' None False None [] 0) = ex_goal\<lparr>updatedAt := 7\<rparr>"
proof -
  have h1: "distinct (ids (steps ex_goal))"
    by (simp add: ex_goal_def forest_eval)
  have q: "sid (Step ''q'' ''New'' None False None [] 0) = ''q''"
    by simp
  show ?thesis
    using h1 q C8_update_frame [OF h1, of "''x''" 7 "''New''" None]
      C8_update_frame [OF h1, of "''q''" 7 "''New''" None]
    by (simp add: ex_goal_def forest_eval ctx_updateStep_def updateStep_def)
qed

text \<open>
  C8 as stated has the operation do nothing when the step is not found. For the missing
  step \<open>q\<close> of the example goal, \<^verbatim>\<open>stepHelpers.updateStep\<close> at time 7 returns a goal that
  differs from the input (in \<^verbatim>\<open>updatedAt\<close>), and the context's \<^verbatim>\<open>updateStep\<close> returns no goal
  at all but the error.
\<close>

theorem C8_counterexample:
  "findStep ex_goal ''q'' = None
   \<and> updateStep 7 ex_goal (Step ''q'' ''New'' None False None [] 0) \<noteq> ex_goal
   \<and> ctx_updateStep 7 ex_goal ''q'' ''New'' None \<noteq> Inr ex_goal"
proof -
  have nf: "findStep ex_goal ''q'' = None"
    by (simp add: ex_goal_def forest_eval)
  have "updatedAt (updateStep 7 ex_goal (Step ''q'' ''New'' None False None [] 0)) = 7"
    by (simp add: updateStep_def)
  moreover have "updatedAt ex_goal = 0"
    by (simp add: ex_goal_def)
  ultimately have ne: "updateStep 7 ex_goal (Step ''q'' ''New'' None False None [] 0) \<noteq> ex_goal"
    by auto
  have "ctx_updateStep 7 ex_goal ''q'' ''New'' None = Inl StepNotFound"
    using nf by (simp add: ctx_updateStep_def)
  with nf ne show ?thesis by simp
qed

section \<open>C9: reordering the goal list\<close>

lemma splice_start_valid: "0 \<le> i \<Longrightarrow> i \<le> int n \<Longrightarrow> splice_start i n = nat i"
  by (simp add: splice_start_def)

lemma splice_remove1_length: "k < length xs \<Longrightarrow> length (splice_remove1 k xs) = length xs - 1"
  by (simp add: splice_remove1_def)

lemma splice_remove1_map: "splice_remove1 k (map f xs) = map f (splice_remove1 k xs)"
  by (simp add: splice_remove1_def take_map drop_map)

lemma splice_insert_valid:
  "0 \<le> i \<Longrightarrow> i \<le> int (length xs) \<Longrightarrow> splice_insert i x xs = take (nat i) xs @ [x] @ drop (nat i) xs"
  by (simp add: splice_insert_def splice_start_valid Let_def)

lemma splice_insert_map: "splice_insert i (f x) (map f xs) = map f (splice_insert i x xs)"
  by (simp add: splice_insert_def Let_def take_map drop_map)

lemma move_within_map:
  "k < length xs \<Longrightarrow> move_within k i (map f xs) = map f (move_within k i xs)"
  by (simp add: move_within_def splice_remove1_map splice_insert_map)

lemma move_within_valid:
  assumes "s < length xs" and "d < length xs"
  shows "length (move_within s (int d) xs) = length xs"
    and "move_within s (int d) xs ! d = xs ! s"
    and "splice_remove1 d (move_within s (int d) xs) = splice_remove1 s xs"
proof -
  let ?rest = "splice_remove1 s xs"
  from assms have len: "length ?rest = length xs - 1" and d: "d \<le> length ?rest"
    by (simp_all add: splice_remove1_length)
  then have mw: "move_within s (int d) xs = take d ?rest @ [xs ! s] @ drop d ?rest"
    by (simp add: move_within_def splice_insert_valid)
  from mw len assms show "length (move_within s (int d) xs) = length xs"
    by simp
  from mw d show "move_within s (int d) xs ! d = xs ! s"
    by (simp add: nth_append)
  from mw d show "splice_remove1 d (move_within s (int d) xs) = splice_remove1 s xs"
    by (simp add: splice_remove1_def [of d] min_absorb2)
qed

lemma renumber_goals_nth:
  "i < length xs \<Longrightarrow>
   map (\<lambda>(index, goal). goal\<lparr>goal_order := int index\<rparr>) (enumerate 0 xs) ! i
     = (xs ! i)\<lparr>goal_order := int i\<rparr>"
  by (simp add: nth_enumerate_eq)

lemma renumber_goals_orders:
  "map goal_order (map (\<lambda>(index, goal). goal\<lparr>goal_order := int index\<rparr>) (enumerate 0 xs))
     = map int [0..<length xs]"
proof (rule nth_equalityI)
  show "length (map goal_order (map (\<lambda>(index, goal). goal\<lparr>goal_order := int index\<rparr>)
          (enumerate 0 xs))) = length (map int [0..<length xs])"
    by simp
next
  fix i
  assume "i < length (map goal_order (map (\<lambda>(index, goal). goal\<lparr>goal_order := int index\<rparr>)
          (enumerate 0 xs)))"
  then show "map goal_order (map (\<lambda>(index, goal). goal\<lparr>goal_order := int index\<rparr>)
          (enumerate 0 xs)) ! i = map int [0..<length xs] ! i"
    by (simp add: nth_enumerate_eq)
qed

lemma renumber_goals_erase:
  "map (\<lambda>g. g\<lparr>goal_order := 0\<rparr>)
     (map (\<lambda>(index, goal). goal\<lparr>goal_order := int index\<rparr>) (enumerate 0 xs))
     = map (\<lambda>g. g\<lparr>goal_order := 0\<rparr>) xs"
proof (rule nth_equalityI)
  show "length (map (\<lambda>g. g\<lparr>goal_order := 0\<rparr>)
     (map (\<lambda>(index, goal). goal\<lparr>goal_order := int index\<rparr>) (enumerate 0 xs)))
     = length (map (\<lambda>g. g\<lparr>goal_order := 0\<rparr>) xs)"
    by simp
next
  fix i
  assume "i < length (map (\<lambda>g. g\<lparr>goal_order := 0\<rparr>)
     (map (\<lambda>(index, goal). goal\<lparr>goal_order := int index\<rparr>) (enumerate 0 xs)))"
  then show "map (\<lambda>g. g\<lparr>goal_order := 0\<rparr>)
     (map (\<lambda>(index, goal). goal\<lparr>goal_order := int index\<rparr>) (enumerate 0 xs)) ! i
     = map (\<lambda>g. g\<lparr>goal_order := 0\<rparr>) xs ! i"
    by (simp add: nth_enumerate_eq)
qed

lemma renumber_goals_map_id:
  "map (\<lambda>(index, goal). goal\<lparr>goal_order := int index\<rparr>) (enumerate 0 (map (goal_id_update f) xs))
     = map (goal_id_update f)
         (map (\<lambda>(index, goal). goal\<lparr>goal_order := int index\<rparr>) (enumerate 0 xs))"
proof (rule nth_equalityI)
  show "length (map (\<lambda>(index, goal). goal\<lparr>goal_order := int index\<rparr>)
          (enumerate 0 (map (goal_id_update f) xs)))
     = length (map (goal_id_update f)
         (map (\<lambda>(index, goal). goal\<lparr>goal_order := int index\<rparr>) (enumerate 0 xs)))"
    by simp
next
  fix i
  assume "i < length (map (\<lambda>(index, goal). goal\<lparr>goal_order := int index\<rparr>)
          (enumerate 0 (map (goal_id_update f) xs)))"
  then show "map (\<lambda>(index, goal). goal\<lparr>goal_order := int index\<rparr>)
          (enumerate 0 (map (goal_id_update f) xs)) ! i
     = map (goal_id_update f)
         (map (\<lambda>(index, goal). goal\<lparr>goal_order := int index\<rparr>) (enumerate 0 xs)) ! i"
    by (simp add: nth_enumerate_eq)
qed

text \<open>
  C9. For indices within bounds, \<^verbatim>\<open>reorderGoals\<close> returns a list \<open>r\<close> of the same length
  whose orders are \<open>0, 1, \<dots>, N - 1\<close> by position; the goal at \<open>destinationIndex\<close> of \<open>r\<close>
  is the goal that was at \<open>sourceIndex\<close> (with its new order); taking it out of \<open>r\<close>
  leaves the other goals in the sequence they had in the input (orders aside). The
  identifiers play no part: renaming them in the input renames them in the output.
\<close>

theorem C9_reorderGoals:
  assumes "0 \<le> sourceIndex" and "sourceIndex < int (length goals)"
    and "0 \<le> destinationIndex" and "destinationIndex < int (length goals)"
  shows "\<exists>r. reorderGoals goals sourceIndex destinationIndex = Some r
       \<and> length r = length goals
       \<and> map goal_order r = map int [0..<length goals]
       \<and> r ! nat destinationIndex = (goals ! nat sourceIndex)\<lparr>goal_order := destinationIndex\<rparr>
       \<and> map (\<lambda>g. g\<lparr>goal_order := 0\<rparr>) (splice_remove1 (nat destinationIndex) r)
           = map (\<lambda>g. g\<lparr>goal_order := 0\<rparr>) (splice_remove1 (nat sourceIndex) goals)
       \<and> (\<forall>f. reorderGoals (map (goal_id_update f) goals) sourceIndex destinationIndex
               = Some (map (goal_id_update f) r))"
proof -
  define s where "s = nat sourceIndex"
  define d where "d = nat destinationIndex"
  let ?mw = "move_within s destinationIndex goals"
  let ?r = "map (\<lambda>(index, goal). goal\<lparr>goal_order := int index\<rparr>) (enumerate 0 ?mw)"
  from assms have s: "s < length goals" and d: "d < length goals"
    and di: "destinationIndex = int d"
    by (simp_all add: s_def d_def)
  from assms have k: "splice_start sourceIndex (length goals) = s"
    by (simp add: splice_start_valid s_def)
  with s have r: "reorderGoals goals sourceIndex destinationIndex = Some ?r"
    by (simp add: reorderGoals_def)
  note mw = move_within_valid [OF s d, folded di]
  have 1: "length ?r = length goals"
    using mw(1) by simp
  have 2: "map goal_order ?r = map int [0..<length goals]"
    using mw(1) by (simp only: renumber_goals_orders)
  have "d < length ?mw"
    using mw(1) d by simp
  then have "?r ! d = (?mw ! d)\<lparr>goal_order := int d\<rparr>"
    by (rule renumber_goals_nth)
  then have 3: "?r ! d = (goals ! s)\<lparr>goal_order := destinationIndex\<rparr>"
    using mw(2) di by simp
  have "map (\<lambda>g. g\<lparr>goal_order := 0\<rparr>) (splice_remove1 d ?r)
      = splice_remove1 d (map (\<lambda>g. g\<lparr>goal_order := 0\<rparr>) ?r)"
    by (simp only: splice_remove1_map)
  also have "\<dots> = splice_remove1 d (map (\<lambda>g. g\<lparr>goal_order := 0\<rparr>) ?mw)"
    by (simp only: renumber_goals_erase)
  also have "\<dots> = map (\<lambda>g. g\<lparr>goal_order := 0\<rparr>) (splice_remove1 s goals)"
    using mw(3) by (simp only: splice_remove1_map)
  finally have 4: "map (\<lambda>g. g\<lparr>goal_order := 0\<rparr>) (splice_remove1 d ?r)
      = map (\<lambda>g. g\<lparr>goal_order := 0\<rparr>) (splice_remove1 s goals)" .
  have 5: "reorderGoals (map (goal_id_update f) goals) sourceIndex destinationIndex
      = Some (map (goal_id_update f) ?r)" for f
    using s k by (simp add: reorderGoals_def move_within_map renumber_goals_map_id)
  from r 1 2 3 4 5 show ?thesis
    unfolding s_def d_def by blast
qed

text \<open>Dragging the first of three goals to the last place.\<close>

theorem C9_reorderGoals_witness:
  "(0::int) \<le> 0 \<and> 0 < int (length ex_goals) \<and> (0::int) \<le> 2 \<and> 2 < int (length ex_goals)
   \<and> (\<exists>r. reorderGoals ex_goals 0 2 = Some r
         \<and> map (\<lambda>g. (goal_id g, goal_order g)) r = [(''g2'', 0), (''g3'', 1), (''g1'', 2)])"
proof -
  have h: "(0::int) \<le> 0" "0 < int (length ex_goals)" "(0::int) \<le> 2" "2 < int (length ex_goals)"
    by (simp_all add: ex_goals_def)
  show ?thesis
    using h C9_reorderGoals [OF h]
    by (simp add: ex_goals_def reorderGoals_def splice_start_def move_within_def
        splice_insert_def splice_remove1_def enumerate_eq_zip upt_rec)
qed

section \<open>moveStepToParent: the descendant test and the removal\<close>

lemma subtree_size:
  "s \<in> set (steps_of stps) \<Longrightarrow> length (steps_of [s]) \<le> length (steps_of stps)"
  by (induction stps rule: forest_induct) (auto simp: steps_of_Cons)

lemma isDescendant_children_decides:
  assumes "distinct (ids (steps g))"
  shows "set (steps_of cs) \<subseteq> set (steps_of (steps g)) \<Longrightarrow> length (steps_of cs) \<le> fuel \<Longrightarrow>
         isDescendant_children fuel g cs c = Some (c \<in> set (ids cs))"
proof (induction cs arbitrary: fuel rule: forest_induct)
  case Nil
  then show ?case by simp
next
  case (Cons s ss)
  from Cons.prems(1) have in_g: "s \<in> set (steps_of (steps g))"
    and sub: "set (steps_of (children s)) \<subseteq> set (steps_of (steps g))"
      "set (steps_of ss) \<subseteq> set (steps_of (steps g))"
    by (auto simp: steps_of_Cons)
  from Cons.prems(2) obtain f where f: "fuel = Suc f" "length (steps_of (children s)) \<le> f"
    "length (steps_of ss) \<le> fuel"
    by (cases fuel) (auto simp: steps_of_Cons)
  from assms in_g have "findStep g (sid s) = Some s"
    by (simp add: findStep_def find_distinct)
  then have "isDescendant fuel g (sid s) c = Some (c \<in> set (ids (children s)))"
    using Cons.IH(1) [OF sub(1) f(2)] f(1) by simp
  moreover have "isDescendant_children fuel g ss c = Some (c \<in> set (ids ss))"
    using Cons.IH(2) [OF sub(2) f(3)] .
  ultimately show ?case
    by (auto simp: ids_Cons split: bool.splits)
qed

lemma isDescendant_decides:
  assumes "distinct (ids (steps g))" and "findStep g p = Some P"
    and "length (steps_of (steps g)) \<le> fuel"
  shows "isDescendant fuel g p c = Some (c \<in> set (ids (children P)))"
proof -
  from assms(2) have P: "P \<in> set (steps_of (steps g))"
    using find_Some_mem [of "steps g" p P] by (simp add: findStep_def)
  then have sub: "set (steps_of (children P)) \<subseteq> set (steps_of (steps g))"
    by (rule subtree_steps)
  from P have "length (steps_of [P]) \<le> length (steps_of (steps g))"
    by (rule subtree_size)
  with assms(3) obtain f where f: "fuel = Suc f" "length (steps_of (children P)) \<le> f"
    by (cases fuel) (auto simp: steps_of_Cons)
  from isDescendant_children_decides [OF assms(1) sub f(2)] assms(2) f(1)
  show ?thesis by simp
qed



section \<open>C10: a step moved under itself is dropped\<close>




section \<open>C1: the cycle guard of moveStepToParent\<close>

text \<open>
  The guard does what its comment says (\<^verbatim>\<open>Don't allow moving a step to its own descendant\<close>):
  in a goal with unique identifiers, a move of \<open>A\<close> under one of its descendants returns
  the goal as it was given.
\<close>

lemma move_under_descendant_rejected:
  assumes "distinct (ids (steps g))" and "findStep g a = Some A"
    and "target \<in> set (ids (children A))" and "target \<noteq> []"
    and "length (steps_of (steps g)) \<le> fuel"
  shows "moveStepToParent fuel now g a (Some target) = Some g"
  using assms(2-4) isDescendant_decides [OF assms(1,2,5), of target]
  by (simp add: moveStepToParent_def truthy_def)

lemma move_under_descendant_example:
  "moveStepToParent 5 7 ex_goal ''a'' (Some ''z'') = Some ex_goal"
proof -
  have h: "distinct (ids (steps ex_goal))"
    "findStep ex_goal ''a'' = Some (hd (steps ex_goal))"
    "''z'' \<in> set (ids (children (hd (steps ex_goal))))"
    "''z'' \<noteq> []"
    "length (steps_of (steps ex_goal)) \<le> 5"
    by (simp_all add: ex_goal_def forest_eval)
  show ?thesis
    by (rule move_under_descendant_rejected [OF h])
qed

text \<open>
  C1, the case \<open>target = A.id\<close>, evaluated: moving the root step \<open>a\<close> of the example goal
  under itself is not rejected. The step is found, the descendant test of \<open>a\<close> against
  \<open>a\<close> is false, \<open>a\<close> is taken out with its whole subtree and is never put back; the
  goal returned is not the goal given.
\<close>

theorem C1_self_move_not_rejected:
  "moveStepToParent 5 7 ex_goal ''a'' (Some ''a'') =
     Some (ex_goal\<lparr>updatedAt := 7, steps := [Step ''b'' ''B'' None False None [] 1]\<rparr>)
   \<and> moveStepToParent 5 7 ex_goal ''a'' (Some ''a'') \<noteq> Some ex_goal"
proof -
  have m: "moveStepToParent 5 7 ex_goal ''a'' (Some ''a'') =
     Some (ex_goal\<lparr>updatedAt := 7, steps := [Step ''b'' ''B'' None False None [] 1]\<rparr>)"
    by (simp add: ex_goal_def forest_eval moveStepToParent_def eval_nat_numeral)
  have "steps (ex_goal\<lparr>updatedAt := 7, steps := [Step ''b'' ''B'' None False None [] 1]\<rparr>)
        \<noteq> steps ex_goal"
    by (simp add: ex_goal_def)
  then have "ex_goal\<lparr>updatedAt := 7, steps := [Step ''b'' ''B'' None False None [] 1]\<rparr> \<noteq> ex_goal"
    by (metis (no_types))
  with m show ?thesis by simp
qed

section \<open>duplicateStep\<close>

lemma parents_ok_Cons:
  "parents_ok par (s # ss) =
     (parentId s = par \<and> parents_ok (Some (sid s)) (children s) \<and> parents_ok par ss)"
  by (cases s) simp

lemma parents_ok_roots: "parents_ok par stps \<Longrightarrow> s \<in> set stps \<Longrightarrow> parentId s = par"
  by (induction stps) (auto simp: parents_ok_Cons)

lemma parents_ok_subtree:
  "parents_ok par stps \<Longrightarrow> P \<in> set (steps_of stps) \<Longrightarrow> parents_ok (Some (sid P)) (children P)"
  by (induction stps arbitrary: par rule: forest_induct)
     (auto simp: parents_ok_Cons steps_of_Cons)

lemma dup_order_absent: "p \<notin> set (ids stps) \<Longrightarrow> duplicatedStep_order p cur stps = cur"
  by (induction stps arbitrary: cur rule: forest_induct) (auto simp: dup_order_Cons ids_Cons)

lemma dup_order_found:
  "distinct (ids stps) \<Longrightarrow> findStepRecursive stps p = Some P \<Longrightarrow>
   duplicatedStep_order p cur stps = findMaxOrder (children P) (Some p) + 1"
proof (induction stps arbitrary: cur rule: forest_induct)
  case Nil
  then show ?case by simp
next
  case (Cons s ss)
  from Cons.prems(1) have d: "distinct (ids (children s))" "distinct (ids ss)"
    "sid s \<notin> set (ids ss)" "set (ids (children s)) \<inter> set (ids ss) = {}"
    by (simp_all add: distinct_ids_Cons)
  consider (here) "sid s = p" "P = s"
    | (below) "sid s \<noteq> p" "findStepRecursive (children s) p = Some P"
    | (right) "sid s \<noteq> p" "findStepRecursive (children s) p = None"
        "findStepRecursive ss p = Some P"
    using Cons.prems(2) by (auto simp: findStepRecursive_Cons split: if_splits option.splits)
  then show ?case
  proof cases
    case here
    with d show ?thesis by (auto simp: dup_order_Cons dup_order_absent)
  next
    case below
    then have "p \<in> set (ids (children s))"
      using find_None_iff [of "children s" p] by auto
    with d have "p \<notin> set (ids ss)" by auto
    with below d Cons.IH(1) show ?thesis by (simp add: dup_order_Cons dup_order_absent)
  next
    case right
    then have "p \<notin> set (ids (children s))" by (simp add: find_None_iff)
    with right d Cons.IH(2) show ?thesis by (simp add: dup_order_Cons dup_order_absent)
  qed
qed

lemma addDup_found:
  "findStepRecursive stps p = Some P \<Longrightarrow>
   findStepRecursive (addDuplicatedStepToParent p dup stps) p
     = Some (with_children (children P @ [dup]) P)"
proof (induction stps rule: forest_induct)
  case Nil
  then show ?case by simp
next
  case (Cons s ss)
  consider (here) "sid s = p" "P = s"
    | (below) "sid s \<noteq> p" "findStepRecursive (children s) p = Some P"
    | (right) "sid s \<noteq> p" "findStepRecursive (children s) p = None"
        "findStepRecursive ss p = Some P"
    using Cons.prems by (auto simp: findStepRecursive_Cons split: if_splits option.splits)
  then show ?case
  proof cases
    case here
    then show ?thesis by (simp add: addDup_Cons findStepRecursive_Cons)
  next
    case below
    with Cons.IH(1) show ?thesis by (simp add: addDup_Cons findStepRecursive_Cons)
  next
    case right
    then have "addDuplicatedStepToParent p dup (children s) = children s"
      by (simp add: addDup_absent find_None_iff)
    with right Cons.IH(2) show ?thesis by (simp add: addDup_Cons findStepRecursive_Cons)
  qed
qed

lemma Math_max0_Max: "Math_max0 xs = Max (insert 0 (set xs))"
proof (induction xs)
  case Nil
  show ?case by (simp add: Math_max0_def)
next
  case (Cons a xs)
  have "Max (insert 0 (set (a # xs))) = Max (insert a (insert 0 (set xs)))"
    by (simp add: insert_commute)
  also have "\<dots> = max a (Max (insert 0 (set xs)))"
    by (rule Max_insert) auto
  finally show ?case
    using Cons by (simp add: Math_max0_def)
qed

lemma Math_max0_nonneg:
  "xs \<noteq> [] \<Longrightarrow> \<forall>x\<in>set xs. 0 \<le> x \<Longrightarrow> Math_max0 xs = Max (set xs)"
  by (simp add: Math_max0_Max max_def Max_ge_iff)

lemma findMaxOrder_siblings:
  assumes "\<forall>s\<in>set stps. parentId s = q" and "stps \<noteq> []" and "\<forall>s\<in>set stps. 0 \<le> order s"
  shows "findMaxOrder stps q = Max (set (map order stps))"
proof -
  from assms(1) have "filter (\<lambda>s. parentId s = q) stps = stps"
    by (simp add: filter_id_conv)
  with assms(2,3) show ?thesis
    by (simp add: findMaxOrder_def Math_max0_nonneg)
qed

lemma nodes_length: "length (nodes stps) = length (steps_of stps)"
  by (simp add: nodes_def)

lemma copied_nodes_Nil: "copied_nodes gen n [] = []"
  by (simp add: copied_nodes_def)

lemma copied_nodes_Cons:
  "copied_nodes gen n (v # vs) =
     v\<lparr>node_id := gen n, node_title := node_title v @ '' (Copy)''\<rparr> # copied_nodes gen (Suc n) vs"
  by (simp add: copied_nodes_def upt_conv_Cons del: upt_Suc)

lemma copied_nodes_append:
  "copied_nodes gen n (xs @ ys) = copied_nodes gen n xs @ copied_nodes gen (n + length xs) ys"
  by (induction xs arbitrary: n) (simp_all add: copied_nodes_Nil copied_nodes_Cons)

lemma duplicate_structure:
  "snd (duplicateStepRecursive gen s n) = n + length (nodes [s])
   \<and> nodes [fst (duplicateStepRecursive gen s n)] = copied_nodes gen n (nodes [s])
   \<and> child_counts [fst (duplicateStepRecursive gen s n)] = child_counts [s]"
  "snd (duplicateStepRecursive_map gen ss n) = n + length (nodes ss)
   \<and> nodes (fst (duplicateStepRecursive_map gen ss n)) = copied_nodes gen n (nodes ss)
   \<and> child_counts (fst (duplicateStepRecursive_map gen ss n)) = child_counts ss
   \<and> length (fst (duplicateStepRecursive_map gen ss n)) = length ss"
proof (induction gen s n and gen ss n rule: duplicateStepRecursive_duplicateStepRecursive_map.induct)
  case (1 gen i t d c p ch ord n)
  obtain ch' n' where r: "duplicateStepRecursive_map gen ch (Suc n) = (ch', n')"
    by (cases "duplicateStepRecursive_map gen ch (Suc n)")
  with 1 have ih: "n' = Suc n + length (nodes ch)" "nodes ch' = copied_nodes gen (Suc n) (nodes ch)"
    "child_counts ch' = child_counts ch" "length ch' = length ch"
    by simp_all
  with r show ?case
    by (simp add: nodes_Cons child_counts_Cons copied_nodes_Cons node_of_def)
next
  case (2 gen n)
  show ?case by (simp add: copied_nodes_Nil)
next
  case (3 gen s ss n)
  obtain s' n1 where r1: "duplicateStepRecursive gen s n = (s', n1)"
    by (cases "duplicateStepRecursive gen s n")
  obtain ss' n2 where r2: "duplicateStepRecursive_map gen ss n1 = (ss', n2)"
    by (cases "duplicateStepRecursive_map gen ss n1")
  from 3(1) r1 have ih1: "n1 = n + length (nodes [s])" "nodes [s'] = copied_nodes gen n (nodes [s])"
    "child_counts [s'] = child_counts [s]"
    by simp_all
  from 3(2) [OF r1 [symmetric]] r2
  have ih2: "n2 = n1 + length (nodes ss)" "nodes ss' = copied_nodes gen n1 (nodes ss)"
    "child_counts ss' = child_counts ss" "length ss' = length ss"
    by simp_all
  have split: "nodes (s # ss) = nodes [s] @ nodes ss" "nodes (s' # ss') = nodes [s'] @ nodes ss'"
    "child_counts (s # ss) = child_counts [s] @ child_counts ss"
    "child_counts (s' # ss') = child_counts [s'] @ child_counts ss'"
    by (simp_all add: nodes_Cons child_counts_Cons)
  from r1 r2 ih1 ih2 show ?case
    by (simp add: split copied_nodes_append)
qed

subsection \<open>Identifiers after the copy is inserted\<close>

lemma copied_nodes_ids: "map node_id (copied_nodes gen n vs) = map gen [n..<n + length vs]"
proof (induction vs arbitrary: n)
  case Nil
  show ?case by (simp add: copied_nodes_Nil)
next
  case (Cons v vs)
  have "[n..<n + length (v # vs)] = n # [Suc n..<Suc n + length vs]"
    by (simp add: upt_conv_Cons del: upt_Suc)
  with Cons [of "Suc n"] show ?case by (simp add: copied_nodes_Cons del: upt_Suc)
qed

lemma copy_ids:
  "ids [fst (duplicateStepRecursive gen X n)] = map gen [n..<n + length (steps_of [X])]"
proof -
  have "ids [fst (duplicateStepRecursive gen X n)]
      = map node_id (nodes [fst (duplicateStepRecursive gen X n)])"
    by (simp only: node_ids)
  also have "\<dots> = map node_id (copied_nodes gen n (nodes [X]))"
    using duplicate_structure(1) [of gen X n] by simp
  also have "\<dots> = map gen [n..<n + length (steps_of [X])]"
    by (simp only: copied_nodes_ids nodes_length)
  finally show ?thesis .
qed

lemma ids_with_order: "ids [with_order k s] = ids [s]"
  by (simp add: ids_single)

lemma addDup_ids_subset:
  "set (ids (addDuplicatedStepToParent p st stps)) \<subseteq> set (ids stps) \<union> set (ids [st])"
  by (induction stps rule: forest_induct)
     (auto simp: addDup_Nil addDup_Cons ids_Cons ids_append)

lemma addDup_distinct:
  assumes "distinct (ids [st])"
  shows "distinct (ids stps) \<Longrightarrow> set (ids stps) \<inter> set (ids [st]) = {} \<Longrightarrow>
         distinct (ids (addDuplicatedStepToParent p st stps))"
proof (induction stps rule: forest_induct)
  case Nil
  then show ?case by (simp add: addDup_Nil)
next
  case (Cons s ss)
  from Cons.prems(1) have d: "distinct (ids (children s))" "distinct (ids ss)"
    "sid s \<notin> set (ids (children s))" "sid s \<notin> set (ids ss)"
    "set (ids (children s)) \<inter> set (ids ss) = {}"
    by (simp_all add: distinct_ids_Cons)
  from Cons.prems(2) have f: "sid s \<notin> set (ids [st])"
    "set (ids (children s)) \<inter> set (ids [st]) = {}" "set (ids ss) \<inter> set (ids [st]) = {}"
    by (auto simp: ids_Cons)
  note sub_c = addDup_ids_subset [of p st "children s"]
  note sub_s = addDup_ids_subset [of p st ss]
  consider (here) "sid s = p"
    | (below) "sid s \<noteq> p" "p \<in> set (ids (children s))"
    | (right) "sid s \<noteq> p" "p \<notin> set (ids (children s))"
    by blast
  then show ?case
  proof cases
    case here
    with d have "addDuplicatedStepToParent p st ss = ss" by (simp add: addDup_absent)
    with here d f assms show ?thesis
      by (auto simp: addDup_Cons ids_Cons ids_append)
  next
    case below
    with d have "p \<notin> set (ids ss)" by auto
    then have same: "addDuplicatedStepToParent p st ss = ss" by (simp add: addDup_absent)
    have "distinct (ids (addDuplicatedStepToParent p st (children s)))"
      using d f by (intro Cons.IH(1))
    moreover have "sid s \<notin> set (ids (addDuplicatedStepToParent p st (children s)))"
      using sub_c d f by auto
    moreover have "set (ids (addDuplicatedStepToParent p st (children s))) \<inter> set (ids ss) = {}"
      using sub_c d f by auto
    ultimately show ?thesis
      using below d same by (simp add: addDup_Cons ids_Cons)
  next
    case right
    then have same: "addDuplicatedStepToParent p st (children s) = children s"
      by (simp add: addDup_absent)
    have "distinct (ids (addDuplicatedStepToParent p st ss))"
      using d f by (intro Cons.IH(2))
    moreover have "sid s \<notin> set (ids (addDuplicatedStepToParent p st ss))"
      using sub_s d f by auto
    moreover have "set (ids (children s)) \<inter> set (ids (addDuplicatedStepToParent p st ss)) = {}"
      using sub_s d f by auto
    ultimately show ?thesis
      using right d same by (simp add: addDup_Cons ids_Cons)
  qed
qed

lemma duplicateStep_distinct:
  assumes "distinct (ids (steps g))" and "findStep g x = Some X"
    and "distinct (map gen [n..<n + length (steps_of [X])])"
    and "set (map gen [n..<n + length (steps_of [X])]) \<inter> set (ids (steps g)) = {}"
  shows "distinct (ids (steps (duplicateStep now gen n g x)))"
proof -
  let ?copy = "fst (duplicateStepRecursive gen X n)"
  have c: "distinct (ids [with_order k ?copy])"
    "set (ids (steps g)) \<inter> set (ids [with_order k ?copy]) = {}" for k
    using assms(3,4) by (auto simp only: ids_with_order copy_ids)
  show ?thesis
  proof (cases "truthy (parentId X)")
    case False
    with assms(1,2) c show ?thesis
      by (simp add: duplicateStep_def Let_def ids_append)
  next
    case True
    with assms(2) addDup_distinct [OF c(1) assms(1) c(2)] show ?thesis
      by (simp add: duplicateStep_def Let_def)
  qed
qed

subsection \<open>Where a found step sits when the parentIds are consistent\<close>

lemma parents_ok_found:
  "parents_ok par stps \<Longrightarrow> findStepRecursive stps x = Some X \<Longrightarrow>
   (X \<in> set stps \<and> parentId X = par)
   \<or> (\<exists>P\<in>set (steps_of stps). X \<in> set (children P) \<and> parentId X = Some (sid P))"
proof (induction stps arbitrary: par rule: forest_induct)
  case Nil
  then show ?case by simp
next
  case (Cons s ss)
  from Cons.prems(1) have p: "parentId s = par" "parents_ok (Some (sid s)) (children s)"
    "parents_ok par ss"
    by (simp_all add: parents_ok_Cons)
  have f: "findStepRecursive (s # ss) x = Some X" by (rule Cons.prems(2))
  have "X = s \<or> findStepRecursive (children s) x = Some X \<or> findStepRecursive ss x = Some X"
  proof (cases "sid s = x")
    case True
    with f show ?thesis by (simp add: findStepRecursive_Cons)
  next
    case False
    show ?thesis
    proof (cases "findStepRecursive (children s) x")
      case None
      with False f show ?thesis by (simp add: findStepRecursive_Cons)
    next
      case (Some a)
      with False f show ?thesis by (simp add: findStepRecursive_Cons)
    qed
  qed
  then consider (here) "X = s"
    | (below) "findStepRecursive (children s) x = Some X"
    | (right) "findStepRecursive ss x = Some X"
    by blast
  then show ?case
  proof cases
    case here
    with p(1) have "X \<in> set (s # ss) \<and> parentId X = par" by simp
    then show ?thesis ..
  next
    case below
    from Cons.IH(1) [OF p(2) below]
    have "\<exists>P\<in>set (steps_of (s # ss)). X \<in> set (children P) \<and> parentId X = Some (sid P)"
    proof (elim disjE conjE bexE)
      assume "X \<in> set (children s)" "parentId X = Some (sid s)"
      moreover have "s \<in> set (steps_of (s # ss))" by (simp add: steps_of_Cons)
      ultimately show ?thesis by blast
    next
      fix P
      assume "P \<in> set (steps_of (children s))" "X \<in> set (children P)"
        "parentId X = Some (sid P)"
      moreover from this(1) have "P \<in> set (steps_of (s # ss))" by (simp add: steps_of_Cons)
      ultimately show ?thesis by blast
    qed
    then show ?thesis ..
  next
    case right
    from Cons.IH(2) [OF p(3) right] show ?thesis
    proof (elim disjE conjE bexE)
      assume "X \<in> set ss" "parentId X = par"
      then have "X \<in> set (s # ss) \<and> parentId X = par" by simp
      then show ?thesis ..
    next
      fix P
      assume "P \<in> set (steps_of ss)" "X \<in> set (children P)" "parentId X = Some (sid P)"
      moreover from this(1) have "P \<in> set (steps_of (s # ss))" by (simp add: steps_of_Cons)
      ultimately have "\<exists>P\<in>set (steps_of (s # ss)). X \<in> set (children P) \<and> parentId X = Some (sid P)"
        by blast
      then show ?thesis ..
    qed
  qed
qed

section \<open>C4: what duplicateStep copies and where it puts the copy\<close>

text \<open>
  C4 (as amended). Take a goal with unique, non-empty step identifiers (I1), consistent
  \<^verbatim>\<open>parentId\<close>s (I3) and orders that are non-negative integers below \<open>2 ^ 53\<close>, let \<open>X\<close> be
  the step found for \<open>x\<close> and \<open>copy\<close> what \<^verbatim>\<open>duplicateStepRecursive\<close> makes of it, and let
  the identifiers that \<^verbatim>\<open>generateId\<close> returns for the copy be new: different from one
  another and from every identifier in the goal. Then every node of the copy, its root
  and every copied descendant, has a fresh identifier (the generated ones, in
  pre-order), and the identifiers of the returned goal are again unique. The copy
  mirrors \<open>X\<close>'s subtree node for node, with the same child counts, descriptions,
  completion flags, \<^verbatim>\<open>parentId\<close>s and orders, and with \<^verbatim>\<open>" (Copy)"\<close> appended to the title of
  every node: the root of the copy and every copied descendant alike. The copy is
  appended to the sibling list of \<open>X\<close> (the root list when \<open>X\<close> is a root step, the
  children of \<open>X\<close>'s parent otherwise) with order = largest order in that list + 1.
\<close>

theorem C4_duplicate:
  assumes "distinct (ids (steps g))" and "[] \<notin> set (ids (steps g))"
    and "parent_consistent g"
    and "\<forall>s\<in>set (steps_of (steps g)). 0 \<le> order s \<and> order s < 2 ^ 53"
    and "findStep g x = Some X"
    and "copy = fst (duplicateStepRecursive gen X n)"
    and "new_ids = map gen [n..<n + length (steps_of [X])]"
    and "distinct new_ids" and "set new_ids \<inter> set (ids (steps g)) = {}"
  shows "ids [copy] = new_ids
       \<and> distinct (ids [copy]) \<and> set (ids [copy]) \<inter> set (ids (steps g)) = {}
       \<and> distinct (ids (steps (duplicateStep now gen n g x)))
       \<and> nodes [copy] = copied_nodes gen n (nodes [X])
       \<and> child_counts [copy] = child_counts [X]
       \<and> (case parentId X of
            None \<Rightarrow>
              X \<in> set (steps g)
              \<and> steps (duplicateStep now gen n g x) =
                  steps g @ [with_order (Max (set (map order (steps g))) + 1) copy]
          | Some p \<Rightarrow>
              (\<exists>P. findStep g p = Some P \<and> X \<in> set (children P)
                 \<and> findStep (duplicateStep now gen n g x) p =
                     Some (with_children
                       (children P @ [with_order (Max (set (map order (children P))) + 1) copy])
                       P)))"
proof -
  have fresh: "ids [copy] = new_ids" "distinct (ids [copy])"
    "set (ids [copy]) \<inter> set (ids (steps g)) = {}"
    using assms(6-9) by (simp_all add: copy_ids)
  have unique: "distinct (ids (steps (duplicateStep now gen n g x)))"
    using assms(1,5,7-9) by (intro duplicateStep_distinct) simp_all
  have shape: "nodes [copy] = copied_nodes gen n (nodes [X])"
    "child_counts [copy] = child_counts [X]"
    using duplicate_structure(1) [of gen X n] assms(6) by simp_all
  from assms(4) have nonneg_all: "\<forall>s\<in>set (steps_of (steps g)). 0 \<le> order s"
    by simp
  from assms(3) have ok: "parents_ok None (steps g)"
    by (simp add: parent_consistent_def)
  from assms(5) have found: "findStepRecursive (steps g) x = Some X"
    by (simp add: findStep_def)
  note where_X = parents_ok_found [OF ok found]
  have place: "case parentId X of
            None \<Rightarrow>
              X \<in> set (steps g)
              \<and> steps (duplicateStep now gen n g x) =
                  steps g @ [with_order (Max (set (map order (steps g))) + 1) copy]
          | Some p \<Rightarrow>
              (\<exists>P. findStep g p = Some P \<and> X \<in> set (children P)
                 \<and> findStep (duplicateStep now gen n g x) p =
                     Some (with_children
                       (children P @ [with_order (Max (set (map order (children P))) + 1) copy])
                       P))"
  proof (cases "parentId X")
    case None
    with where_X have root: "X \<in> set (steps g)" by auto
    then have ne: "steps g \<noteq> []" by auto
    have "\<forall>s\<in>set (steps g). 0 \<le> order s"
      using nonneg_all roots_in_steps_of [of "steps g"] by auto
    with ok ne have "findMaxOrder (steps g) None = Max (set (map order (steps g)))"
      by (intro findMaxOrder_siblings) (auto dest: parents_ok_roots)
    with None root assms(5,6) show ?thesis
      by (simp add: duplicateStep_def truthy_def)
  next
    case (Some p)
    with where_X obtain P where P: "P \<in> set (steps_of (steps g))" "X \<in> set (children P)"
      "p = sid P"
      by auto
    from P(1,3) have "p \<in> set (ids (steps g))" by (auto simp: ids_def)
    with assms(2) have p_ne: "p \<noteq> []" by auto
    from assms(1) P(1,3) have fP: "findStepRecursive (steps g) p = Some P"
      by (simp add: find_distinct)
    from P(2) have ne: "children P \<noteq> []" by auto
    have "set (children P) \<subseteq> set (steps_of (steps g))"
      using subtree_steps [OF P(1)] roots_in_steps_of [of "children P"] by auto
    with nonneg_all have nonneg: "\<forall>s\<in>set (children P). 0 \<le> order s" by auto
    have "parents_ok (Some p) (children P)"
      using parents_ok_subtree [OF ok P(1)] P(3) by simp
    then have "\<forall>s\<in>set (children P). parentId s = Some p"
      by (auto dest: parents_ok_roots)
    with ne nonneg have "findMaxOrder (children P) (Some p) = Max (set (map order (children P)))"
      by (intro findMaxOrder_siblings)
    with assms(1) fP have ord: "duplicatedStep_order p cur (steps g)
        = Max (set (map order (children P))) + 1" for cur
      by (simp add: dup_order_found)
    from fP have "findStepRecursive
        (addDuplicatedStepToParent p
           (with_order (Max (set (map order (children P))) + 1) copy) (steps g)) p
        = Some (with_children
            (children P @ [with_order (Max (set (map order (children P))) + 1) copy]) P)"
      by (rule addDup_found)
    with Some p_ne assms(5,6) ord fP P(2) show ?thesis
      by (simp add: duplicateStep_def truthy_def findStep_def)
  qed
  from fresh unique shape place show ?thesis by simp
qed

text \<open>
  On the example goal, with the supply \<open>n\<close>, \<open>n*\<close>: the copy of \<open>x\<close> is \<open>n\<close> with the child
  \<open>n*\<close>, titled \<open>X (Copy)\<close> and \<open>Z (Copy)\<close>; it becomes the third child of \<open>a\<close> with order 2,
  and the seven identifiers of the result are all different.
\<close>

theorem C4_duplicate_witness:
  "distinct (ids (steps ex_goal)) \<and> [] \<notin> set (ids (steps ex_goal))
   \<and> parent_consistent ex_goal
   \<and> map order (steps_of (steps ex_goal)) = [0, 0, 0, 1, 1]
   \<and> findStep ex_goal ''x'' =
       Some (Step ''x'' ''X'' (Some ''first'') False (Some ''a'')
               [Step ''z'' ''Z'' None True (Some ''x'') [] 0] 0)
   \<and> map ex_gen [0..<0 + length (steps_of
         [Step ''x'' ''X'' (Some ''first'') False (Some ''a'')
               [Step ''z'' ''Z'' None True (Some ''x'') [] 0] 0])] = [''n'', ''n*'']
   \<and> map (\<lambda>v. (node_id v, node_title v))
        (nodes [fst (duplicateStepRecursive ex_gen
           (Step ''x'' ''X'' (Some ''first'') False (Some ''a'')
               [Step ''z'' ''Z'' None True (Some ''x'') [] 0] 0) 0)])
       = [(''n'', ''X (Copy)''), (''n*'', ''Z (Copy)'')]
   \<and> map_option (\<lambda>P. map (\<lambda>s. (sid s, order s)) (children P))
        (findStep (duplicateStep 7 ex_gen 0 ex_goal ''x'') ''a'')
       = Some [(''x'', 0), (''y'', 1), (''n'', 2)]
   \<and> ids (steps (duplicateStep 7 ex_gen 0 ex_goal ''x''))
       = [''a'', ''x'', ''z'', ''y'', ''n'', ''n*'', ''b'']"
proof -
  let ?X = "Step ''x'' ''X'' (Some ''first'') False (Some ''a'')
               [Step ''z'' ''Z'' None True (Some ''x'') [] 0] 0"
  have h1: "distinct (ids (steps ex_goal))"
    and h2: "[] \<notin> set (ids (steps ex_goal))"
    and h3: "parent_consistent ex_goal"
    and h4: "\<forall>s\<in>set (steps_of (steps ex_goal)). 0 \<le> order s \<and> order s < 2 ^ 53"
    and h5: "findStep ex_goal ''x'' = Some ?X"
    by (simp_all add: ex_goal_def forest_eval parent_consistent_def)
  have new: "map ex_gen [0..<0 + length (steps_of [?X])] = [''n'', ''n*'']"
    by (simp add: forest_eval ex_gen_def upt_rec)
  have h8: "distinct (map ex_gen [0..<0 + length (steps_of [?X])])"
    and h9: "set (map ex_gen [0..<0 + length (steps_of [?X])]) \<inter> set (ids (steps ex_goal)) = {}"
    unfolding new by (simp_all add: ex_goal_def forest_eval)
  show ?thesis
    using h1 h2 h3 h5 new C4_duplicate [OF h1 h2 h3 h4 h5 refl refl h8 h9, of 7]
    by (simp add: ex_goal_def forest_eval parent_consistent_def ex_gen_def copied_nodes_def
        duplicateStep_def Let_def)
qed

text \<open>
  C4 as stated has every copied descendant keep its title. In the copy of \<open>x\<close> made above,
  the copy of the child \<open>z\<close> is titled \<open>Z (Copy)\<close>, not \<open>Z\<close>.
\<close>

theorem C4_counterexample:
  "descendant_titles ex_goal ''x'' = Some [''Z'']
   \<and> descendant_titles (duplicateStep 7 ex_gen 0 ex_goal ''x'') ''n'' = Some [''Z (Copy)'']
   \<and> descendant_titles (duplicateStep 7 ex_gen 0 ex_goal ''x'') ''n''
       \<noteq> descendant_titles ex_goal ''x''"
  by (simp add: descendant_titles_def ex_goal_def forest_eval ex_gen_def duplicateStep_def Let_def)

section \<open>C5: parentId after duplicateStep\<close>

text \<open>
  C5, evaluated on the example goal, whose \<^verbatim>\<open>parentId\<close>s are consistent: in the goal
  returned by \<^verbatim>\<open>duplicateStep\<close> for \<open>x\<close>, the copy \<open>n*\<close> of the child \<open>z\<close> sits in the children
  of the copy \<open>n\<close> and still carries \<^verbatim>\<open>parentId\<close> \<open>x\<close>, the id of the original parent. The
  result is not parent-consistent.
\<close>

theorem C5_duplicate_breaks_parentId:
  "parent_consistent ex_goal
   \<and> duplicateStep 7 ex_gen 0 ex_goal ''x'' =
       ex_goal\<lparr>updatedAt := 7,
         steps :=
           [Step ''a'' ''A'' None False None
              [Step ''x'' ''X'' (Some ''first'') False (Some ''a'')
                 [Step ''z'' ''Z'' None True (Some ''x'') [] 0] 0,
               Step ''y'' ''Y'' None False (Some ''a'') [] 1,
               Step ''n'' ''X (Copy)'' (Some ''first'') False (Some ''a'')
                 [Step ''n*'' ''Z (Copy)'' None True (Some ''x'') [] 0] 2] 0,
            Step ''b'' ''B'' None False None [] 1]\<rparr>
   \<and> \<not> parent_consistent (duplicateStep 7 ex_gen 0 ex_goal ''x'')"
  by (simp add: parent_consistent_def ex_goal_def forest_eval ex_gen_def duplicateStep_def Let_def)

section \<open>Order density\<close>

lemma orders_dense_Nil [simp]: "orders_dense []"
  by (simp add: orders_dense_def)

lemma orders_dense_cong: "map order xs = map order ys \<Longrightarrow> orders_dense xs = orders_dense ys"
proof -
  assume e: "map order xs = map order ys"
  then have "length (map order xs) = length (map order ys)" by simp
  then have "length xs = length ys" by simp
  with e show ?thesis by (simp add: orders_dense_def)
qed

lemma orders_dense_append:
  "orders_dense xs \<Longrightarrow> order s = int (length xs) \<Longrightarrow> orders_dense (xs @ [s])"
  by (auto simp: orders_dense_def)

lemma orders_dense_Max:
  assumes "orders_dense xs" and "xs \<noteq> []"
  shows "Max (set (map order xs)) = int (length xs) - 1"
proof -
  from assms(1) have s: "set (map order xs) = int ` {0..<length xs}"
    by (simp add: orders_dense_def)
  from assms(2) have n: "0 < length xs" by simp
  show ?thesis
    unfolding s
  proof (rule Max_eqI)
    show "finite (int ` {0..<length xs})" by simp
    show "y \<le> int (length xs) - 1" if "y \<in> int ` {0..<length xs}" for y
      using that by auto
    show "int (length xs) - 1 \<in> int ` {0..<length xs}"
    proof
      show "int (length xs) - 1 = int (length xs - 1)" using assms(2) by (cases xs) simp_all
      show "length xs - 1 \<in> {0..<length xs}" using n by simp
    qed
  qed
qed

lemma orders_dense_nonneg: "orders_dense xs \<Longrightarrow> s \<in> set xs \<Longrightarrow> 0 \<le> order s"
proof -
  assume d: "orders_dense xs" and s: "s \<in> set xs"
  then have "order s \<in> int ` {0..<length xs}"
    by (auto simp: orders_dense_def)
  then show ?thesis by auto
qed

lemma orders_dense_Math_max0:
  assumes "orders_dense xs" and "xs \<noteq> []"
  shows "Math_max0 (map order xs) = int (length xs) - 1"
proof -
  have "Math_max0 (map order xs) = Max (set (map order xs))"
    using assms by (intro Math_max0_nonneg) (auto dest: orders_dense_nonneg)
  with orders_dense_Max [OF assms] show ?thesis by simp
qed

lemma renumber_orders: "map order (renumber xs) = map int [0..<length xs]"
proof (rule nth_equalityI)
  show "length (map order (renumber xs)) = length (map int [0..<length xs])"
    by (simp add: renumber_def)
next
  fix i
  assume "i < length (map order (renumber xs))"
  then show "map order (renumber xs) ! i = map int [0..<length xs] ! i"
    by (simp add: renumber_def nth_enumerate_eq)
qed

lemma renumber_length [simp]: "length (renumber xs) = length xs"
  by (simp add: renumber_def)

lemma renumber_dense: "orders_dense (renumber xs)"
  by (simp add: orders_dense_def renumber_orders distinct_map)

lemma renumber_children: "map children (renumber xs) = map children xs"
proof (rule nth_equalityI)
  show "length (map children (renumber xs)) = length (map children xs)"
    by simp
next
  fix i
  assume "i < length (map children (renumber xs))"
  then show "map children (renumber xs) ! i = map children xs ! i"
    by (simp add: renumber_def nth_enumerate_eq)
qed

lemma children_dense_Nil [simp]: "children_dense []"
  by (simp add: children_dense_def)

lemma children_dense_Cons:
  "children_dense (s # ss) =
     (orders_dense (children s) \<and> children_dense (children s) \<and> children_dense ss)"
  by (simp add: children_dense_def steps_of_Cons)

lemma children_dense_append:
  "children_dense (xs @ ys) = (children_dense xs \<and> children_dense ys)"
  by (simp add: children_dense_def steps_of_append)

lemma children_dense_roots:
  "children_dense stps =
     (\<forall>s\<in>set stps. orders_dense (children s) \<and> children_dense (children s))"
  by (induction stps) (auto simp: children_dense_Cons)

lemma children_dense_lists:
  "children_dense stps =
     (\<forall>c\<in>set (map children stps). orders_dense c \<and> children_dense c)"
  by (simp add: children_dense_roots [of stps])

lemma children_dense_by_children:
  "map children xs = map children ys \<Longrightarrow> children_dense xs = children_dense ys"
  by (simp only: children_dense_lists [of xs] children_dense_lists [of ys])

lemma children_dense_subtree:
  "children_dense stps \<Longrightarrow> s \<in> set (steps_of stps) \<Longrightarrow>
   orders_dense (children s) \<and> children_dense (children s)"
  by (induction stps rule: forest_induct) (auto simp: children_dense_Cons steps_of_Cons)

lemma move_within_set:
  "i < length xs \<Longrightarrow> set (move_within i k xs) = set xs"
proof -
  assume i: "i < length xs"
  let ?rest = "splice_remove1 i xs"
  let ?j = "splice_start k (length ?rest)"
  have "set (take ?j ?rest) \<union> set (drop ?j ?rest) = set ?rest"
    by (metis append_take_drop_id set_append)
  then have "set (move_within i k xs) = insert (xs ! i) (set ?rest)"
    by (simp add: move_within_def splice_insert_def Let_def)
  also have "\<dots> = set (take i xs @ xs ! i # drop (Suc i) xs)"
    by (simp add: splice_remove1_def)
  also have "\<dots> = set xs"
    using i by (simp only: id_take_nth_drop [symmetric])
  finally show ?thesis .
qed

lemma findIndex_Some: "findIndex P xs = Some i \<Longrightarrow> i < length xs \<and> P (xs ! i)"
  by (induction xs arbitrary: i) (auto split: if_splits)

lemma reordered_list_dense:
  assumes "i < length xs"
  shows "orders_dense (renumber (move_within i k xs))"
    and "children_dense (renumber (move_within i k xs)) = children_dense xs"
proof -
  show "orders_dense (renumber (move_within i k xs))" by (rule renumber_dense)
  have "children_dense (renumber (move_within i k xs)) = children_dense (move_within i k xs)"
    by (rule children_dense_by_children) (rule renumber_children)
  also have "\<dots> = children_dense xs"
    unfolding children_dense_roots [of "move_within i k xs"] children_dense_roots [of xs]
    by (simp add: move_within_set [OF assms])
  finally show "children_dense (renumber (move_within i k xs)) = children_dense xs" .
qed

subsection \<open>reorderStep keeps every sibling list dense\<close>

lemma reorder_nested_orders:
  "truthy pid \<Longrightarrow> map order (reorderStepsAtSameLevel stps x k pid) = map order stps"
  by (induction stps) (auto simp: reorder_nested_Nil reorder_nested_Cons split: option.splits)

lemma reorder_nested_children_dense:
  "truthy pid \<Longrightarrow> children_dense stps \<Longrightarrow>
   children_dense (reorderStepsAtSameLevel stps x k pid)"
proof (induction stps rule: forest_induct)
  case Nil
  then show ?case by (simp add: reorder_nested_Nil)
next
  case (Cons s ss)
  from Cons.prems(2) have cd: "orders_dense (children s)" "children_dense (children s)"
    "children_dense ss"
    by (simp_all add: children_dense_Cons)
  note ih = Cons.IH(1) [OF Cons.prems(1) cd(2)] Cons.IH(2) [OF Cons.prems(1) cd(3)]
  show ?case
  proof (cases "Some (sid s) = pid")
    case True
    show ?thesis
    proof (cases "findIndex (\<lambda>s. sid s = x) (children s)")
      case None
      with True Cons.prems(1) cd ih show ?thesis
        by (simp add: reorder_nested_Cons children_dense_Cons)
    next
      case (Some i)
      then have "i < length (children s)" by (simp add: findIndex_Some)
      from reordered_list_dense [OF this, of k] True Some Cons.prems(1) cd ih show ?thesis
        by (simp add: reorder_nested_Cons children_dense_Cons)
    qed
  next
    case False
    have "orders_dense (reorderStepsAtSameLevel (children s) x k pid)"
      using cd(1) reorder_nested_orders [OF Cons.prems(1), of "children s" x k]
      by (simp add: orders_dense_cong [of "reorderStepsAtSameLevel (children s) x k pid" "children s"])
    with False Cons.prems(1) ih show ?thesis
      by (simp add: reorder_nested_Cons children_dense_Cons)
  qed
qed

lemma reorder_dense:
  assumes "orders_dense stps" and "children_dense stps"
  shows "orders_dense (reorderStepsAtSameLevel stps x k pid)
       \<and> children_dense (reorderStepsAtSameLevel stps x k pid)"
proof (cases "truthy pid")
  case True
  have "orders_dense (reorderStepsAtSameLevel stps x k pid)"
    using assms(1) reorder_nested_orders [OF True, of stps x k]
    by (simp add: orders_dense_cong [of "reorderStepsAtSameLevel stps x k pid" stps])
  with True assms(2) show ?thesis
    by (simp add: reorder_nested_children_dense)
next
  case False
  show ?thesis
  proof (cases "findIndex (\<lambda>s. sid s = x) stps")
    case None
    with False assms show ?thesis by (simp add: reorder_root)
  next
    case (Some i)
    then have "i < length stps" by (simp add: findIndex_Some)
    from reordered_list_dense [OF this, of k] False Some assms show ?thesis
      by (simp add: reorder_root)
  qed
qed

subsection \<open>Appending a step to the children of the parent found\<close>

lemma addDup_is_addStep:
  "addDuplicatedStepToParent p st stps = addStepRecursive p st stps"
  by (induction stps rule: forest_induct)
     (simp_all add: addDup_Nil addDup_Cons addStepRecursive_Nil addStepRecursive_Cons)

lemma addStepRecursive_orders: "map order (addStepRecursive p st stps) = map order stps"
  by (induction stps) (simp_all add: addStepRecursive_Nil addStepRecursive_Cons)

lemma addStepRecursive_children_dense:
  assumes "order st = int (length (children P))" and "children_dense [st]"
  shows "distinct (ids stps) \<Longrightarrow> findStepRecursive stps p = Some P \<Longrightarrow>
         children_dense stps \<Longrightarrow> children_dense (addStepRecursive p st stps)"
proof (induction stps rule: forest_induct)
  case Nil
  then show ?case by simp
next
  case (Cons s ss)
  from Cons.prems(1) have d: "distinct (ids (children s))" "distinct (ids ss)"
    "sid s \<notin> set (ids ss)" "set (ids (children s)) \<inter> set (ids ss) = {}"
    by (simp_all add: distinct_ids_Cons)
  from Cons.prems(3) have cd: "orders_dense (children s)" "children_dense (children s)"
    "children_dense ss"
    by (simp_all add: children_dense_Cons)
  consider (here) "sid s = p" "P = s"
    | (below) "sid s \<noteq> p" "findStepRecursive (children s) p = Some P"
    | (right) "sid s \<noteq> p" "findStepRecursive (children s) p = None"
        "findStepRecursive ss p = Some P"
    using Cons.prems(2) by (auto simp: findStepRecursive_Cons split: if_splits option.splits)
  then show ?case
  proof cases
    case here
    with d have "addStepRecursive p st ss = ss" by (simp add: addStepRecursive_absent)
    moreover have "orders_dense (children s @ [st])"
      using cd(1) assms(1) here by (simp add: orders_dense_append)
    ultimately show ?thesis
      using here cd assms(2)
      by (simp add: addStepRecursive_Cons children_dense_Cons children_dense_append)
  next
    case below
    then have "p \<in> set (ids (children s))"
      using find_None_iff [of "children s" p] by auto
    with d have "p \<notin> set (ids ss)" by auto
    then have "addStepRecursive p st ss = ss" by (simp add: addStepRecursive_absent)
    moreover have "orders_dense (addStepRecursive p st (children s))"
      using cd(1) addStepRecursive_orders [of p st "children s"]
      by (simp add: orders_dense_cong [of "addStepRecursive p st (children s)" "children s"])
    ultimately show ?thesis
      using below cd d Cons.IH(1) by (simp add: addStepRecursive_Cons children_dense_Cons)
  next
    case right
    then have "addStepRecursive p st (children s) = children s"
      by (simp add: addStepRecursive_absent find_None_iff)
    with right cd d Cons.IH(2) show ?thesis
      by (simp add: addStepRecursive_Cons children_dense_Cons)
  qed
qed

lemma addStepRecursive_dense:
  assumes "distinct (ids stps)" and "findStepRecursive stps p = Some P"
    and "orders_dense stps" and "children_dense stps"
    and "order st = int (length (children P))" and "children_dense [st]"
  shows "orders_dense (addStepRecursive p st stps) \<and> children_dense (addStepRecursive p st stps)"
proof -
  have "orders_dense (addStepRecursive p st stps)"
    using assms(3) addStepRecursive_orders [of p st stps]
    by (simp add: orders_dense_cong [of "addStepRecursive p st stps" stps])
  with addStepRecursive_children_dense [OF assms(5,6,1,2,4)] show ?thesis by simp
qed

lemma append_dense:
  assumes "orders_dense stps" and "children_dense stps"
    and "order st = int (length stps)" and "children_dense [st]"
  shows "orders_dense (stps @ [st]) \<and> children_dense (stps @ [st])"
  using assms by (simp add: orders_dense_append children_dense_append)

subsection \<open>The context's addStep\<close>

lemma next_order:
  "orders_dense xs \<Longrightarrow>
   (if xs \<noteq> [] then Max (set (map order xs)) else - 1) + 1 = int (length xs)"
  using orders_dense_Max [of xs] by (cases "xs = []") simp_all

lemma next_order_image:
  "orders_dense xs \<Longrightarrow> xs \<noteq> [] \<Longrightarrow> Max (order ` set xs) + 1 = int (length xs)"
  using orders_dense_Max [of xs] by simp

lemma ctx_addStep_dense:
  assumes "order_dense g" and "distinct (ids (steps g))"
  shows "order_dense (ctx_addStep now newId g t d par)"
proof -
  from assms(1) have od: "orders_dense (steps g)" and cd: "children_dense (steps g)"
    by (simp_all add: order_dense_def)
  have leaf: "children_dense [Step newId t d False par [] k]" for k
    by (simp add: children_dense_Cons)
  show ?thesis
  proof (cases "truthy par")
    case False
    have "order_dense (g\<lparr>updatedAt := now,
        steps := steps g @ [Step newId t d False par [] (int (length (steps g)))]\<rparr>)"
      using append_dense [OF od cd _ leaf] by (simp add: order_dense_def)
    with False od show ?thesis
      by (auto simp: ctx_addStep_def addStep_def truthy_def next_order_image Let_def
          split: option.splits)
  next
    case True
    then obtain p where p: "par = Some p" "p \<noteq> []"
      by (auto simp: truthy_def split: option.splits)
    show ?thesis
    proof (cases "findStepRecursive (steps g) p")
      case None
      then have "addStepRecursive p st (steps g) = steps g" for st
        by (simp add: addStepRecursive_absent find_None_iff)
      with p None assms(1) show ?thesis
        by (simp add: ctx_addStep_def addStep_def truthy_def order_dense_def)
    next
      case (Some P)
      then have "P \<in> set (steps_of (steps g))" using find_Some_mem by blast
      with cd have "orders_dense (children P)" by (simp add: children_dense_subtree)
      then have ord: "(if children P \<noteq> [] then Max (set (map order (children P))) else - 1) + 1
          = int (length (children P))"
        by (rule next_order)
      have "order_dense (g\<lparr>updatedAt := now,
          steps := addStepRecursive p
            (Step newId t d False par [] (int (length (children P)))) (steps g)\<rparr>)"
        using addStepRecursive_dense [OF assms(2) Some od cd _ leaf] by (simp add: order_dense_def)
      with p Some ord show ?thesis
        by (simp add: ctx_addStep_def addStep_def truthy_def)
    qed
  qed
qed

subsection \<open>duplicateStep\<close>

lemma children_dense_by_orders:
  assumes "map (\<lambda>s. map order (children s)) (steps_of xs)
         = map (\<lambda>s. map order (children s)) (steps_of ys)"
  shows "children_dense xs = children_dense ys"
proof -
  define OD where "OD = (\<lambda>os :: int list. distinct os \<and> set os = set (map int [0..<length os]))"
  have "children_dense zs = list_all OD (map (\<lambda>s. map order (children s)) (steps_of zs))" for zs
    by (simp add: children_dense_def orders_dense_def OD_def list.pred_map o_def)
  with assms show ?thesis by simp
qed

lemma duplicate_orders:
  "map (\<lambda>s. map order (children s)) (steps_of [fst (duplicateStepRecursive gen s n)])
     = map (\<lambda>s. map order (children s)) (steps_of [s])
   \<and> order (fst (duplicateStepRecursive gen s n)) = order s"
  "map (\<lambda>s. map order (children s)) (steps_of (fst (duplicateStepRecursive_map gen ss n)))
     = map (\<lambda>s. map order (children s)) (steps_of ss)
   \<and> map order (fst (duplicateStepRecursive_map gen ss n)) = map order ss"
proof (induction gen s n and gen ss n rule: duplicateStepRecursive_duplicateStepRecursive_map.induct)
  case (1 gen i t d c p ch ord n)
  obtain ch' n' where r: "duplicateStepRecursive_map gen ch (Suc n) = (ch', n')"
    by (cases "duplicateStepRecursive_map gen ch (Suc n)")
  with 1 have "map (\<lambda>s. map order (children s)) (steps_of ch')
      = map (\<lambda>s. map order (children s)) (steps_of ch)" "map order ch' = map order ch"
    by simp_all
  with r show ?case by simp
next
  case (2 gen n)
  show ?case by simp
next
  case (3 gen s ss n)
  obtain s' n1 where r1: "duplicateStepRecursive gen s n = (s', n1)"
    by (cases "duplicateStepRecursive gen s n")
  obtain ss' n2 where r2: "duplicateStepRecursive_map gen ss n1 = (ss', n2)"
    by (cases "duplicateStepRecursive_map gen ss n1")
  from 3(1) r1 have ih1: "map (\<lambda>s. map order (children s)) (steps_of [s'])
      = map (\<lambda>s. map order (children s)) (steps_of [s])" "order s' = order s"
    by simp_all
  from 3(2) [OF r1 [symmetric]] r2
  have ih2: "map (\<lambda>s. map order (children s)) (steps_of ss')
      = map (\<lambda>s. map order (children s)) (steps_of ss)" "map order ss' = map order ss"
    by simp_all
  have "steps_of (s' # ss') = steps_of [s'] @ steps_of ss'"
    "steps_of (s # ss) = steps_of [s] @ steps_of ss"
    by (simp_all add: steps_of_Cons)
  with r1 r2 ih1 ih2 show ?case by simp
qed

lemma copy_children_dense:
  "children_dense [with_order k (fst (duplicateStepRecursive gen X n))] = children_dense [X]"
proof -
  have "steps_of [with_order k s] = with_order k s # steps_of (children s)" for s
    by (simp add: steps_of_Cons)
  then have "map (\<lambda>s. map order (children s)) (steps_of [with_order k s])
      = map (\<lambda>s. map order (children s)) (steps_of [s])" for s
    by (simp add: steps_of_Cons)
  with duplicate_orders(1) [of gen X n]
  have "map (\<lambda>s. map order (children s))
          (steps_of [with_order k (fst (duplicateStepRecursive gen X n))])
      = map (\<lambda>s. map order (children s)) (steps_of [X])"
    by simp
  then show ?thesis by (rule children_dense_by_orders)
qed

lemma duplicateStep_dense:
  assumes "order_dense g" and "distinct (ids (steps g))" and "parent_consistent g"
  shows "order_dense (duplicateStep now gen n g x)"
proof (cases "findStep g x")
  case None
  with assms(1) show ?thesis by (simp add: duplicateStep_def)
next
  case (Some X)
  from assms(1) have od: "orders_dense (steps g)" and cd: "children_dense (steps g)"
    by (simp_all add: order_dense_def)
  from assms(3) have ok: "parents_ok None (steps g)"
    by (simp add: parent_consistent_def)
  from Some have found: "findStepRecursive (steps g) x = Some X"
    by (simp add: findStep_def)
  then have X: "X \<in> set (steps_of (steps g))" using find_Some_mem by blast
  with cd have "children_dense [X]"
    using children_dense_subtree [of "steps g" X] by (simp add: children_dense_Cons)
  then have copy: "children_dense [with_order k (fst (duplicateStepRecursive gen X n))]" for k
    by (simp add: copy_children_dense)
  let ?copy = "fst (duplicateStepRecursive gen X n)"
  show ?thesis
  proof (cases "truthy (parentId X)")
    case False
    from X have ne: "steps g \<noteq> []" by auto
    from ok have "filter (\<lambda>s. parentId s = None) (steps g) = steps g"
      by (auto simp: filter_id_conv dest: parents_ok_roots)
    with od ne have "findMaxOrder (steps g) None + 1 = int (length (steps g))"
      by (simp add: findMaxOrder_def orders_dense_Math_max0)
    then have "order (with_order (findMaxOrder (steps g) None + 1) ?copy) = int (length (steps g))"
      by simp
    from append_dense [OF od cd this copy] False Some show ?thesis
      by (simp add: duplicateStep_def order_dense_def Let_def)
  next
    case True
    then obtain p where p: "parentId X = Some p"
      by (auto simp: truthy_def split: option.splits)
    from parents_ok_found [OF ok found] p obtain P
      where P: "P \<in> set (steps_of (steps g))" "X \<in> set (children P)" "p = sid P"
      by auto
    from assms(2) P(1,3) have fP: "findStepRecursive (steps g) p = Some P"
      by (simp add: find_distinct)
    from P(2) have ne: "children P \<noteq> []" by auto
    from cd P(1) have odP: "orders_dense (children P)"
      by (simp add: children_dense_subtree)
    have "parents_ok (Some p) (children P)"
      using parents_ok_subtree [OF ok P(1)] P(3) by simp
    then have "filter (\<lambda>s. parentId s = Some p) (children P) = children P"
      by (auto simp: filter_id_conv dest: parents_ok_roots)
    with odP ne have "findMaxOrder (children P) (Some p) + 1 = int (length (children P))"
      by (simp add: findMaxOrder_def orders_dense_Math_max0)
    with assms(2) fP have "duplicatedStep_order p cur (steps g) = int (length (children P))" for cur
      by (simp add: dup_order_found)
    then have "order (with_order (duplicatedStep_order p cur (steps g)) ?copy)
        = int (length (children P))" for cur
      by simp
    from addStepRecursive_dense [OF assms(2) fP od cd this copy] True Some p show ?thesis
      by (simp add: duplicateStep_def order_dense_def addDup_is_addStep Let_def)
  qed
qed

section \<open>C2: which operations leave every sibling list dense\<close>

text \<open>
  C2 (as amended). Take a goal in which every sibling list (the root list and the
  children of every step) has the orders \<open>0, \<dots>, N - 1\<close>, each once. After \<^verbatim>\<open>reorderStep\<close>,
  after \<^verbatim>\<open>addStep\<close> as the context calls it (step identifiers unique), and after
  \<^verbatim>\<open>duplicateStep\<close> (step identifiers unique, \<^verbatim>\<open>parentId\<close>s consistent), every sibling list of
  the returned goal again has the orders \<open>0, \<dots>, N - 1\<close>, each once. \<^verbatim>\<open>moveStepToParent\<close> is
  not among them: like \<^verbatim>\<open>deleteStep\<close>, it does not renumber the list the step leaves.
\<close>

theorem C2_density_preserved:
  assumes "order_dense g"
  shows "order_dense (reorderStep now g x k pid)
       \<and> (distinct (ids (steps g)) \<longrightarrow> order_dense (ctx_addStep now newId g t d par))
       \<and> (distinct (ids (steps g)) \<and> parent_consistent g \<longrightarrow>
            order_dense (duplicateStep now gen n g x))"
proof -
  from assms have "orders_dense (steps g)" "children_dense (steps g)"
    by (simp_all add: order_dense_def)
  then have "order_dense (reorderStep now g x k pid)"
    using reorder_dense [of "steps g" x k pid] by (simp add: reorderStep_def order_dense_def)
  with assms show ?thesis
    by (simp add: ctx_addStep_dense duplicateStep_dense)
qed

text \<open>
  On the example goal: \<open>y\<close> dragged to the front of the children of \<open>a\<close>, a new step
  added under \<open>x\<close>, and \<open>x\<close> duplicated.
\<close>

theorem C2_density_preserved_witness:
  "order_dense ex_goal \<and> distinct (ids (steps ex_goal)) \<and> parent_consistent ex_goal
   \<and> order_dense (reorderStep 7 ex_goal ''y'' 0 (Some ''a''))
   \<and> map_option (\<lambda>P. map (\<lambda>s. (sid s, order s)) (children P))
        (findStep (reorderStep 7 ex_goal ''y'' 0 (Some ''a'')) ''a'')
       = Some [(''y'', 0), (''x'', 1)]
   \<and> order_dense (ctx_addStep 7 ''new'' ex_goal ''New'' None (Some ''x''))
   \<and> order_dense (duplicateStep 7 ex_gen 0 ex_goal ''x'')"
proof -
  have h: "order_dense ex_goal"
    by (auto simp: order_dense_def orders_dense_def children_dense_def ex_goal_def forest_eval
        atLeastLessThanSuc)
  have h1: "distinct (ids (steps ex_goal))" and h3: "parent_consistent ex_goal"
    by (simp_all add: ex_goal_def forest_eval parent_consistent_def)
  have r: "map_option (\<lambda>P. map (\<lambda>s. (sid s, order s)) (children P))
        (findStep (reorderStep 7 ex_goal ''y'' 0 (Some ''a'')) ''a'')
       = Some [(''y'', 0), (''x'', 1)]"
    by (simp add: ex_goal_def forest_eval reorderStep_def reorder_nested_Cons reorder_nested_Nil
        renumber_def move_within_def splice_insert_def splice_remove1_def splice_start_def
        enumerate_eq_zip)
  show ?thesis
    using h h1 h3 r
      C2_density_preserved [OF h, where now = 7 and x = "''y''" and k = 0 and pid = "Some ''a''"]
      C2_density_preserved [OF h, where now = 7 and x = "''x''" and newId = "''new''"
        and t = "''New''" and d = None and par = "Some ''x''" and gen = ex_gen and n = 0]
    by simp
qed

text \<open>
  C2 as stated counts \<^verbatim>\<open>moveStepToParent\<close> in. On the example goal, which is dense, moving
  \<open>x\<close> to the root leaves \<open>y\<close>, with order 1, as the only child of \<open>a\<close>.
\<close>

theorem C2_counterexample:
  "order_dense ex_goal
   \<and> map_option (\<lambda>g. map_option (\<lambda>P. map (\<lambda>s. (sid s, order s)) (children P)) (findStep g ''a''))
        (moveStepToParent 5 7 ex_goal ''x'' None) = Some (Some [(''y'', 1)])
   \<and> map_option order_dense (moveStepToParent 5 7 ex_goal ''x'' None) = Some False"
  by (auto simp: order_dense_def orders_dense_def children_dense_def ex_goal_def forest_eval
      moveStepToParent_def Let_def atLeastLessThanSuc)

section \<open>Parent consistency in the other operations\<close>

text \<open>
  Every operation but \<^verbatim>\<open>duplicateStep\<close> returns a parent-consistent goal when given one:
  \<^verbatim>\<open>moveStepToParent\<close> and the context's \<^verbatim>\<open>addStep\<close> write the \<^verbatim>\<open>parentId\<close> of the step they
  place, the others leave the \<^verbatim>\<open>parentId\<close>s and the containment as they are.
\<close>

lemma parents_ok_append:
  "parents_ok par (xs @ ys) = (parents_ok par xs \<and> parents_ok par ys)"
  by (induction xs) (auto simp: parents_ok_Cons)

lemma parents_ok_filter: "parents_ok par xs \<Longrightarrow> parents_ok par (filter Q xs)"
  by (induction xs) (auto simp: parents_ok_Cons)

lemma parents_ok_all:
  "parents_ok par xs = (\<forall>s\<in>set xs. parentId s = par \<and> parents_ok (Some (sid s)) (children s))"
  by (induction xs) (auto simp: parents_ok_Cons)

lemma delete_parents_ok:
  "parents_ok par stps \<Longrightarrow> parents_ok par (deleteStepRecursive x stps)"
  by (induction stps arbitrary: par rule: forest_induct)
     (auto simp: deleteStepRecursive_Nil deleteStepRecursive_Cons parents_ok_Cons)

lemma force_parents_ok:
  "parents_ok par stps \<Longrightarrow> parents_ok par (toggleCompletionRecursiveForce stps b)"
  by (induction stps arbitrary: par rule: forest_induct)
     (auto simp: force_Nil force_Cons parents_ok_Cons)

lemma toggle_parents_ok:
  "parents_ok par stps \<Longrightarrow> parents_ok par (toggleCompletionRecursive x stps)"
  by (induction stps arbitrary: par rule: forest_induct)
     (auto simp: toggle_Nil toggle_Cons parents_ok_Cons force_parents_ok)

lemma update_parents_ok:
  "parents_ok par stps \<Longrightarrow>
   (\<And>s. s \<in> set (steps_of stps) \<Longrightarrow> sid s = sid u \<Longrightarrow> parentId s = parentId u) \<Longrightarrow>
   parents_ok par (updateStepRecursive u stps)"
proof (induction stps arbitrary: par rule: forest_induct)
  case Nil
  then show ?case by (simp add: updateStepRecursive_Nil)
next
  case (Cons s ss)
  from Cons.prems(1) have p: "parentId s = par" "parents_ok (Some (sid s)) (children s)"
    "parents_ok par ss"
    by (simp_all add: parents_ok_Cons)
  have sub: "parentId r = parentId u" if "r \<in> set (steps_of (s # ss))" "sid r = sid u" for r
    using that by (rule Cons.prems(2))
  have 1: "parents_ok (Some (sid s)) (updateStepRecursive u (children s))"
    using p(2) sub by (intro Cons.IH(1)) (auto simp: steps_of_Cons)
  have 2: "parents_ok par (updateStepRecursive u ss)"
    using p(3) sub by (intro Cons.IH(2)) (auto simp: steps_of_Cons)
  show ?case
  proof (cases "sid s = sid u")
    case True
    with sub [of s] p(1) have "parentId u = par" by (simp add: steps_of_Cons)
    with True p 2 show ?thesis
      by (simp add: updateStepRecursive_Cons parents_ok_Cons)
  next
    case False
    with p 1 2 show ?thesis
      by (simp add: updateStepRecursive_Cons parents_ok_Cons)
  qed
qed

lemma renumber_members:
  "r \<in> set (renumber xs) \<Longrightarrow> \<exists>s\<in>set xs. \<exists>k. r = with_order k s"
proof -
  assume "r \<in> set (renumber xs)"
  then obtain i where i: "i < length xs" "r = renumber xs ! i"
    by (auto simp: in_set_conv_nth)
  then have "r = with_order (int i) (xs ! i)"
    by (simp add: renumber_def nth_enumerate_eq)
  with i(1) show ?thesis by (metis nth_mem)
qed

lemma reordered_parents_ok:
  assumes "i < length xs" and "parents_ok par xs"
  shows "parents_ok par (renumber (move_within i k xs))"
  unfolding parents_ok_all [of par "renumber (move_within i k xs)"]
proof
  fix r
  assume "r \<in> set (renumber (move_within i k xs))"
  then obtain s j where "s \<in> set (move_within i k xs)" "r = with_order j s"
    using renumber_members by blast
  with assms show "parentId r = par \<and> parents_ok (Some (sid r)) (children r)"
    by (auto simp: move_within_set parents_ok_all [of par xs])
qed

lemma reorder_parents_ok:
  "parents_ok par stps \<Longrightarrow> parents_ok par (reorderStepsAtSameLevel stps x k pid)"
proof (cases "truthy pid")
  case False
  assume ok: "parents_ok par stps"
  show ?thesis
  proof (cases "findIndex (\<lambda>s. sid s = x) stps")
    case None
    with False ok show ?thesis by (simp add: reorder_root)
  next
    case (Some i)
    then have "i < length stps" by (simp add: findIndex_Some)
    from reordered_parents_ok [OF this ok] False Some show ?thesis
      by (simp add: reorder_root)
  qed
next
  case True
  assume "parents_ok par stps"
  then show ?thesis
  proof (induction stps arbitrary: par rule: forest_induct)
    case Nil
    with True show ?case by (simp add: reorder_nested_Nil)
  next
    case (Cons s ss)
    from Cons.prems have p: "parentId s = par" "parents_ok (Some (sid s)) (children s)"
      "parents_ok par ss"
      by (simp_all add: parents_ok_Cons)
    note ih = Cons.IH(1) [OF p(2)] Cons.IH(2) [OF p(3)]
    show ?case
    proof (cases "findIndex (\<lambda>s. sid s = x) (children s)")
      case None
      with True p ih show ?thesis
        by (auto simp: reorder_nested_Cons parents_ok_Cons)
    next
      case (Some i)
      then have "i < length (children s)" by (simp add: findIndex_Some)
      from reordered_parents_ok [OF this p(2)] True Some p ih show ?thesis
        by (auto simp: reorder_nested_Cons parents_ok_Cons)
    qed
  qed
qed

lemma addStepRecursive_parents_ok:
  "parents_ok par stps \<Longrightarrow> parents_ok (Some p) [st] \<Longrightarrow>
   parents_ok par (addStepRecursive p st stps)"
  by (induction stps arbitrary: par rule: forest_induct)
     (auto simp: addStepRecursive_Nil addStepRecursive_Cons parents_ok_Cons parents_ok_append)

lemma addNew_parents_ok:
  "parents_ok par stps \<Longrightarrow> parents_ok (Some p) [m] \<Longrightarrow>
   parents_ok par (addStepToNewParent g p m stps)"
  by (induction stps arbitrary: par rule: forest_induct)
     (auto simp: addNew_Nil addNew_Cons parents_ok_Cons parents_ok_append)

lemma remove_parents_ok:
  "parents_ok par stps \<Longrightarrow> parents_ok par (removeStepFromParent stps x)"
proof (induction stps arbitrary: par rule: forest_induct)
  case Nil
  then show ?case by (simp add: remove_Nil)
next
  case (Cons s ss)
  show ?case
  proof (cases "\<exists>r\<in>set (s # ss). sid r = x")
    case True
    then have "removeStepFromParent (s # ss) x = filter (\<lambda>s. sid s \<noteq> x) (s # ss)"
      by (subst remove_unfold) simp
    with Cons.prems show ?thesis by (simp only: parents_ok_filter)
  next
    case False
    from Cons.prems have p: "parentId s = par" "parents_ok (Some (sid s)) (children s)"
      "parents_ok par ss"
      by (simp_all add: parents_ok_Cons)
    from False have "map (\<lambda>s. with_children (removeStepFromParent (children s) x) s) ss
        = removeStepFromParent ss x"
      by (simp add: remove_unfold [of ss])
    with False have "removeStepFromParent (s # ss) x
        = with_children (removeStepFromParent (children s) x) s # removeStepFromParent ss x"
      by (simp add: remove_unfold [of "s # ss"])
    with p Cons.IH(1) [OF p(2)] Cons.IH(2) [OF p(3)] show ?thesis
      by (simp add: parents_ok_Cons)
  qed
qed

lemma parent_consistency_kept:
  assumes "parent_consistent g"
  shows "parent_consistent (deleteStep now g x)"
    and "parent_consistent (toggleStepCompletion now g x)"
    and "parent_consistent (reorderStep now g x k pid)"
    and "par \<noteq> Some [] \<Longrightarrow> parent_consistent (ctx_addStep now newId g t d par)"
    and "distinct (ids (steps g)) \<Longrightarrow> ctx_updateStep now g x t d = Inr g' \<Longrightarrow>
         parent_consistent g'"
    and "newParentId \<noteq> Some [] \<Longrightarrow> moveStepToParent fuel now g x newParentId = Some g' \<Longrightarrow>
         parent_consistent g'"
proof -
  from assms have ok: "parents_ok None (steps g)"
    by (simp add: parent_consistent_def)
  show "parent_consistent (deleteStep now g x)"
    using ok by (simp add: parent_consistent_def deleteStep_def delete_parents_ok)
  show "parent_consistent (toggleStepCompletion now g x)"
    using ok by (simp add: parent_consistent_def toggleStepCompletion_def toggle_parents_ok)
  show "parent_consistent (reorderStep now g x k pid)"
    using ok by (simp add: parent_consistent_def reorderStep_def reorder_parents_ok)
  show "parent_consistent (ctx_addStep now newId g t d par)" if "par \<noteq> Some []"
  proof (cases par)
    case None
    with ok show ?thesis
      by (simp add: parent_consistent_def ctx_addStep_def addStep_def truthy_def Let_def
          parents_ok_append)
  next
    case (Some p)
    with that have "p \<noteq> []" by simp
    with Some ok show ?thesis
      by (simp add: parent_consistent_def ctx_addStep_def addStep_def truthy_def Let_def
          addStepRecursive_parents_ok)
  qed
  show "parent_consistent g'"
    if d: "distinct (ids (steps g))" and u: "ctx_updateStep now g x t d = Inr g'"
  proof -
    from u obtain X where X: "findStepRecursive (steps g) x = Some X"
      and g': "g' = updateStep now g (with_description d (with_title t X))"
      by (auto simp: ctx_updateStep_def findStep_def split: option.splits)
    have "parentId s = parentId X" if "s \<in> set (steps_of (steps g))" "sid s = sid X" for s
      using find_distinct [OF d that(1)] that(2) X find_Some_mem [OF X] by simp
    with ok have "parents_ok None
        (updateStepRecursive (with_description d (with_title t X)) (steps g))"
      by (intro update_parents_ok) simp_all
    with g' show ?thesis
      by (simp add: parent_consistent_def updateStep_def)
  qed
  show "parent_consistent g'"
    if np: "newParentId \<noteq> Some []" and m: "moveStepToParent fuel now g x newParentId = Some g'"
  proof (cases "findStep g x")
    case None
    with m assms show ?thesis by (simp add: moveStepToParent_def)
  next
    case (Some S)
    then have S: "S \<in> set (steps_of (steps g))"
      using find_Some_mem [of "steps g" x S] by (simp add: findStep_def)
    from parents_ok_subtree [OF ok S]
    have moved: "parents_ok q [with_order j (with_parentId q S)]" for q j
      by (simp add: parents_ok_Cons)
    have rest: "parents_ok None (removeStepFromParent (steps g) x)"
      using ok by (rule remove_parents_ok)
    show ?thesis
    proof (cases newParentId)
      case None
      with m Some assms rest moved [of None] show ?thesis
        by (auto simp: moveStepToParent_def truthy_def Let_def parent_consistent_def
            parents_ok_append split: option.splits bool.splits)
    next
      case (Some p)
      with np have "p \<noteq> []" by simp
      have "parents_ok (Some p) [with_parentId (Some p) S]"
        using parents_ok_subtree [OF ok S] by (simp add: parents_ok_Cons)
      then have "parents_ok None
          (addStepToNewParent g p (with_parentId (Some p) S) (removeStepFromParent (steps g) x))"
        using rest by (intro addNew_parents_ok)
      with m \<open>findStep g x = Some S\<close> Some \<open>p \<noteq> []\<close> assms show ?thesis
        by (auto simp: moveStepToParent_def truthy_def Let_def parent_consistent_def
            split: option.splits bool.splits)
    qed
  qed
qed

end
